theory Spec2Isabelle
  imports Complex_Main "HOL-Library.Multiset" "HOL-Library.Log_Nat"
begin

section \<open>Group generation: data model\<close>

text \<open>
  The handler \<open>GET /api/outings/:outingId/groups\<close> of \<open>src/cloudflare_worker/src/index.js\<close>
  reads one outing row and the rows of its member players, orders a copy of the players and
  deals them into named groups. A player row is \<open>{id, name, skill}\<close>; a group is
  \<open>{name, players, totalSkill}\<close>. A JavaScript number is modelled by the rational
  it stands for (every finite double is one), and the arithmetic of the handler rounds as
  double precision does. Arrays are lists, strings are lists of 8-bit characters.
\<close>

record player =
  player_id :: string
  player_name :: string
  player_skill :: rat

record group =
  name :: string
  players :: "player list"
  totalSkill :: rat

record outing =
  outing_name :: string
  number_of_groups :: int

datatype response =
    Json_Empty string "group list" string
  | Json_Groups string int "group list"
  | Error nat string

subsection \<open>Double-precision arithmetic\<close>

text \<open>
  The result of an arithmetic operation on doubles is the exact result rounded to the
  nearest double, ties going to the even significand. \<open>pow2 e\<close> is the power of two
  with exponent \<open>e\<close>, \<open>binary_exponent x\<close> the \<open>e\<close> with
  \<open>pow2 e \<le> |x| < pow2 (e + 1)\<close>. The doubles near \<open>x\<close> are the multiples of
  \<open>grid x\<close>, which is \<open>pow2 (e - 52)\<close>, and \<open>pow2 (- 1074)\<close> in the subnormal
  range. Overflow to infinity is not modelled: no number met here comes near it.
\<close>

definition pow2 :: "int \<Rightarrow> rat" where
  "pow2 e = (if 0 \<le> e then 2 ^ nat e else 1 / 2 ^ nat (- e))"

definition binary_exponent :: "rat \<Rightarrow> int" where
  "binary_exponent x =
     (if 1 \<le> \<bar>x\<bar> then bitlen \<lfloor>\<bar>x\<bar>\<rfloor> - 1 else - bitlen (\<lceil>1 / \<bar>x\<bar>\<rceil> - 1))"

definition round_half_even :: "rat \<Rightarrow> int" where
  "round_half_even q =
     (let f = \<lfloor>q\<rfloor>; d = q - of_int f
      in if d < 1 / 2 then f else if 1 / 2 < d then f + 1 else if even f then f else f + 1)"

definition grid :: "rat \<Rightarrow> rat" where
  "grid x = pow2 (max (binary_exponent x - 52) (- 1074))"

definition round_double :: "rat \<Rightarrow> rat" where
  "round_double x =
     (if x = 0 then 0 else of_int (round_half_even (x / grid x)) * grid x)"

text \<open>\<open>a + b\<close> on doubles.\<close>

definition double_add :: "rat \<Rightarrow> rat \<Rightarrow> rat" where
  "double_add a b = round_double (a + b)"

subsection \<open>Ordering step\<close>

text \<open>
  \<open>[a[i], a[j]] = [a[j], a[i]]\<close>: both reads happen before the two writes. The loop
  below calls it with \<open>j \<le> i < length\<close> whenever its draws are doubles in
  \<open>[0, 1)\<close>, so no position outside the array is read or written.
\<close>

definition swap :: "nat \<Rightarrow> nat \<Rightarrow> 'a list \<Rightarrow> 'a list" where
  "swap i j xs = xs[i := xs ! j, j := xs ! i]"

text \<open>
  The shuffle loop \<open>for (let i = length - 1; i > 0; i--)\<close>. \<open>random k\<close> is the value
  returned by the \<open>k\<close>-th call of \<open>Math.random()\<close>: a double that is at least 0 and
  less than 1. The second component of the result counts the calls made so far.
  \<open>Math.random() * (i + 1)\<close> is a product of doubles, so it is rounded; \<open>i + 1\<close> and
  \<open>Math.floor\<close> are exact.
\<close>

definition is_draw :: "rat \<Rightarrow> bool" where
  "is_draw r = (0 \<le> r \<and> r < 1 \<and> round_double r = r)"

definition random_ok :: "(nat \<Rightarrow> rat) \<Rightarrow> bool" where
  "random_ok random = (\<forall>k. is_draw (random k))"

definition random_index :: "rat \<Rightarrow> nat \<Rightarrow> nat" where
  "random_index r i = nat \<lfloor>round_double (r * (of_nat i + 1))\<rfloor>"

fun fisher_yates :: "(nat \<Rightarrow> rat) \<Rightarrow> nat \<Rightarrow> nat \<Rightarrow> 'a list \<Rightarrow> 'a list \<times> nat" where
  "fisher_yates random k 0 xs = (xs, k)"
| "fisher_yates random k (Suc i) xs =
     (let j = random_index (random k) (Suc i)
      in fisher_yates random (Suc k) i (swap (Suc i) j xs))"

definition shuffle_players :: "(nat \<Rightarrow> rat) \<Rightarrow> 'a list \<Rightarrow> 'a list \<times> nat" where
  "shuffle_players random xs = fisher_yates random 0 (length xs - 1) xs"

text \<open>
  The comparator handed to \<open>sort\<close>. \<open>localeCompare\<close> is the platform's string collation,
  a parameter here. The sort looks only at the sign of the comparator's result, and the
  difference of two doubles rounds to a number of the same sign as the exact difference,
  so the difference is left exact.
\<close>

definition compare_players :: "(string \<Rightarrow> string \<Rightarrow> int) \<Rightarrow> player \<Rightarrow> player \<Rightarrow> rat" where
  "compare_players localeCompare a b =
     (if player_skill b \<noteq> player_skill a then player_skill b - player_skill a
      else of_int (localeCompare (player_name a) (player_name b)))"

text \<open>
  \<open>Array.prototype.sort\<close> is a stable sort; it is modelled by stable insertion, which puts
  an element before the first one it does not compare greater than.
\<close>

fun insert_sorted :: "('a \<Rightarrow> 'a \<Rightarrow> rat) \<Rightarrow> 'a \<Rightarrow> 'a list \<Rightarrow> 'a list" where
  "insert_sorted cmp x [] = [x]"
| "insert_sorted cmp x (y # ys) =
     (if cmp x y \<le> 0 then x # y # ys else y # insert_sorted cmp x ys)"

definition array_sort :: "('a \<Rightarrow> 'a \<Rightarrow> rat) \<Rightarrow> 'a list \<Rightarrow> 'a list" where
  "array_sort cmp xs = foldr (insert_sorted cmp) xs []"

definition order_players ::
  "(string \<Rightarrow> string \<Rightarrow> int) \<Rightarrow> (nat \<Rightarrow> rat) \<Rightarrow> bool \<Rightarrow> player list \<Rightarrow> player list" where
  "order_players localeCompare random shuffle ps =
     (if shuffle then fst (shuffle_players random ps)
      else array_sort (compare_players localeCompare) ps)"

subsection \<open>Naming step\<close>

definition GOLF_GROUP_NAMES :: "string list" where
  "GOLF_GROUP_NAMES =
    [''The Fairway Fanatics'', ''The Driving Divas/Dudes'', ''The Bogey Brigade'', ''The Ace Alliance'',
     ''The Bunker Busters'', ''The Caddy Crew'', ''The Eagle Enforcers'', ''The Fore Horsemen'',
     ''The Green Guardians'', ''The Hazard Heroes'', ''The Iron Masters'', ''The Julep Jubilees'',
     ''The Mulligan Monarchs'', ''The Niblick Ninjas'', ''The On-Course Originals'', ''The Pin Seekers'',
     ''The Quagmire Conquerors'', ''The Rough Riders'', ''The Sand Trappers'', ''The Tee Time Titans'',
     ''The Under Par Unicorns'', ''The Victory Vardon'', ''The Wedge Wizards'', ''The X-Factor'',
     ''The Yardage Yetis'', ''The Zany Zephyrs'']"

text \<open>
  The decimal rendering of a non-negative integer inside a template literal (the integers
  met here are far below the size at which JavaScript switches to exponent notation).
\<close>

fun number_to_string :: "nat \<Rightarrow> string" where
  "number_to_string n =
     (if n < 10 then [''0123456789'' ! n]
      else number_to_string (n div 10) @ [''0123456789'' ! (n mod 10)])"

declare number_to_string.simps [simp del]

definition group_name :: "nat \<Rightarrow> string" where
  "group_name i =
     GOLF_GROUP_NAMES ! (i mod length GOLF_GROUP_NAMES) @
     (if i div length GOLF_GROUP_NAMES > 0
      then '' ('' @ number_to_string (i div length GOLF_GROUP_NAMES + 1) @ '')''
      else '''')"

text \<open>
  \<open>Array.from({ length: numberOfGroups }, (_, i) => ...)\<close> first constructs an array of
  the given length, which throws a RangeError when the length is 4294967296 or more, and
  then fills it with the results of the callback; a length that is not positive gives the
  empty array. \<open>make_groups\<close> is the filled array, \<open>groups_array\<close> the whole
  expression, with \<open>None\<close> for the RangeError. The memory an array takes is not
  modelled.
\<close>

definition make_groups :: "int \<Rightarrow> group list" where
  "make_groups numberOfGroups =
     map (\<lambda>i. \<lparr>name = group_name i, players = [], totalSkill = 0\<rparr>) [0..<nat numberOfGroups]"

definition groups_array :: "int \<Rightarrow> group list option" where
  "groups_array numberOfGroups =
     (if 4294967296 \<le> numberOfGroups then None else Some (make_groups numberOfGroups))"

subsection \<open>Distribution step\<close>

text \<open>
  The two statements after the push: \<open>groupIndex += direction\<close>, and on leaving the range
  \<open>direction *= -1; groupIndex += direction\<close>. The state is \<open>(groupIndex, direction)\<close>.
\<close>

definition advance :: "int \<Rightarrow> int \<times> int \<Rightarrow> int \<times> int" where
  "advance numberOfGroups st =
     (let groupIndex = fst st + snd st; direction = snd st
      in if groupIndex \<ge> numberOfGroups \<or> groupIndex < 0
         then (groupIndex + direction * (- 1), direction * (- 1))
         else (groupIndex, direction))"

text \<open>
  One run of the \<open>forEach\<close> body. \<open>groups[groupIndex]\<close> outside the array is
  \<open>undefined\<close>, and reading \<open>.players\<close> of it throws a TypeError: \<open>None\<close>.
\<close>

definition assign_player ::
  "int \<Rightarrow> group list \<times> int \<times> int \<Rightarrow> player \<Rightarrow> (group list \<times> int \<times> int) option" where
  "assign_player numberOfGroups st p =
     (let groups = fst st; groupIndex = fst (snd st)
      in if groupIndex < 0 \<or> int (length groups) \<le> groupIndex then None
         else
           let g = groups ! nat groupIndex;
               g1 = g\<lparr>players := players g @
                      [\<lparr>player_id = player_id p, player_name = player_name p,
                        player_skill = player_skill p\<rparr>]\<rparr>;
               g2 = g1\<lparr>totalSkill := double_add (totalSkill g1) (player_skill p)\<rparr>
           in Some (groups[nat groupIndex := g2], advance numberOfGroups (snd st)))"

fun distribute ::
  "int \<Rightarrow> group list \<times> int \<times> int \<Rightarrow> player list \<Rightarrow> (group list \<times> int \<times> int) option" where
  "distribute numberOfGroups st [] = Some st"
| "distribute numberOfGroups st (p # ps) =
     (case assign_player numberOfGroups st p of
        None \<Rightarrow> None
      | Some st' \<Rightarrow> distribute numberOfGroups st' ps)"

text \<open>\<open>group.players.reduce((sum, p) => sum + p.skill, 0)\<close> for every group.\<close>

definition recalculate :: "group \<Rightarrow> group" where
  "recalculate g =
     g\<lparr>totalSkill := foldl (\<lambda>sum p. double_add sum (player_skill p)) 0 (players g)\<rparr>"

subsection \<open>The handler, from the two rows read onwards\<close>

text \<open>
  \<open>players\<close> is the array of rows that \<open>all()\<close> returns, so the test
  \<open>!players || players.length === 0\<close> is the test for the empty array. The \<open>try\<close>
  block's \<open>catch\<close> turns any exception, the RangeError of the array construction and
  the TypeError of the distribution, into a 500 response.
\<close>

definition generate_groups ::
  "(string \<Rightarrow> string \<Rightarrow> int) \<Rightarrow> (nat \<Rightarrow> rat) \<Rightarrow> bool \<Rightarrow> outing \<Rightarrow> player list \<Rightarrow> response" where
  "generate_groups localeCompare random shuffle outing ps =
     (let numberOfGroups = number_of_groups outing
      in if length ps = 0
         then Json_Empty (outing_name outing) [] ''No players in this outing to form groups.''
         else
           let currentPlayers = order_players localeCompare random shuffle ps
           in case groups_array numberOfGroups of
                None \<Rightarrow> Error 500 ''Failed to generate groups''
              | Some groups \<Rightarrow>
                  (case distribute numberOfGroups (groups, 0, 1) currentPlayers of
                     None \<Rightarrow> Error 500 ''Failed to generate groups''
                   | Some st \<Rightarrow>
                       Json_Groups (outing_name outing) numberOfGroups (map recalculate (fst st))))"

text \<open>The group indices visited by the first \<open>k\<close> players, read off the same state machine.\<close>

fun index_path :: "int \<Rightarrow> int \<times> int \<Rightarrow> nat \<Rightarrow> int list" where
  "index_path numberOfGroups st 0 = []"
| "index_path numberOfGroups st (Suc k) = fst st # index_path numberOfGroups (advance numberOfGroups st) k"

subsection \<open>The shuffle as a function of the chosen positions\<close>

text \<open>
  The positions \<open>j\<close> the loop computes from its draws, in the order of the steps
  \<open>i = n - 1, ..., 1\<close>, and the loop run on a given sequence of positions. A sequence of
  positions is admissible when the position chosen at step \<open>i\<close> lies in \<open>[0, i]\<close>.
\<close>

fun choices :: "(nat \<Rightarrow> rat) \<Rightarrow> nat \<Rightarrow> nat \<Rightarrow> nat list" where
  "choices random k 0 = []"
| "choices random k (Suc i) = random_index (random k) (Suc i) # choices random (Suc k) i"

fun shuffle_with :: "nat list \<Rightarrow> nat \<Rightarrow> 'a list \<Rightarrow> 'a list" where
  "shuffle_with js 0 xs = xs"
| "shuffle_with [] (Suc i) xs = xs"
| "shuffle_with (j # js) (Suc i) xs = shuffle_with js i (swap (Suc i) j xs)"

fun valid_choices :: "nat \<Rightarrow> nat list \<Rightarrow> bool" where
  "valid_choices 0 js = (js = [])"
| "valid_choices (Suc i) [] = False"
| "valid_choices (Suc i) (j # js) = (j \<le> Suc i \<and> valid_choices i js)"

subsection \<open>The ordering step on an explicit store\<close>

text \<open>
  \<open>let currentPlayers = [...players]\<close> allocates a new array; the shuffle and
  \<open>sort\<close> then write into that array in place. Arrays live in a store, addressed by
  numbers; \<open>next_addr\<close> is the first address not yet handed out.
\<close>

type_synonym addr = nat

record store =
  arrays :: "addr \<Rightarrow> player list option"
  next_addr :: addr

definition store_ok :: "store \<Rightarrow> bool" where
  "store_ok h = (\<forall>a. next_addr h \<le> a \<longrightarrow> arrays h a = None)"

definition array_at :: "store \<Rightarrow> addr \<Rightarrow> player list" where
  "array_at h a = (case arrays h a of None \<Rightarrow> [] | Some xs \<Rightarrow> xs)"

definition write_elem :: "store \<Rightarrow> addr \<Rightarrow> nat \<Rightarrow> player \<Rightarrow> store" where
  "write_elem h a i v = h\<lparr>arrays := (arrays h)(a \<mapsto> (array_at h a)[i := v])\<rparr>"

definition spread_copy :: "store \<Rightarrow> addr \<Rightarrow> store \<times> addr" where
  "spread_copy h a =
     (h\<lparr>arrays := (arrays h)(next_addr h \<mapsto> array_at h a), next_addr := Suc (next_addr h)\<rparr>,
      next_addr h)"

definition swap_in_place :: "store \<Rightarrow> addr \<Rightarrow> nat \<Rightarrow> nat \<Rightarrow> store" where
  "swap_in_place h a i j =
     (let vj = array_at h a ! j; vi = array_at h a ! i
      in write_elem (write_elem h a i vj) a j vi)"

fun shuffle_in_place :: "(nat \<Rightarrow> rat) \<Rightarrow> nat \<Rightarrow> nat \<Rightarrow> store \<Rightarrow> addr \<Rightarrow> store" where
  "shuffle_in_place random k 0 h a = h"
| "shuffle_in_place random k (Suc i) h a =
     (let j = random_index (random k) (Suc i)
      in shuffle_in_place random (Suc k) i (swap_in_place h a (Suc i) j) a)"

definition sort_in_place :: "(player \<Rightarrow> player \<Rightarrow> rat) \<Rightarrow> store \<Rightarrow> addr \<Rightarrow> store" where
  "sort_in_place cmp h a = h\<lparr>arrays := (arrays h)(a \<mapsto> array_sort cmp (array_at h a))\<rparr>"

definition order_in_store ::
  "(string \<Rightarrow> string \<Rightarrow> int) \<Rightarrow> (nat \<Rightarrow> rat) \<Rightarrow> bool \<Rightarrow> store \<Rightarrow> addr \<Rightarrow> store \<times> addr" where
  "order_in_store localeCompare random shuffle h players_addr =
     (let (h1, currentPlayers) = spread_copy h players_addr
      in if shuffle
         then (shuffle_in_place random 0 (length (array_at h1 currentPlayers) - 1) h1 currentPlayers,
               currentPlayers)
         else (sort_in_place (compare_players localeCompare) h1 currentPlayers, currentPlayers))"

section \<open>Request bodies and the record stores\<close>

text \<open>
  A value of a parsed JSON body, or \<open>undefined\<close> for a property that is absent.
  \<open>JSON.parse\<close> yields finite numbers or an infinity, never NaN. Arrays and objects are
  not told apart: the handlers only look at their type tag and truthiness.
\<close>

datatype number = Finite rat | PosInfinity | NegInfinity

datatype jsval = JUndefined | JNull | JBoolean bool | JNumber number | JString string | JObject

fun typeof :: "jsval \<Rightarrow> string" where
  "typeof JUndefined = ''undefined''"
| "typeof JNull = ''object''"
| "typeof (JBoolean b) = ''boolean''"
| "typeof (JNumber n) = ''number''"
| "typeof (JString s) = ''string''"
| "typeof JObject = ''object''"

fun truthy :: "jsval \<Rightarrow> bool" where
  "truthy JUndefined = False"
| "truthy JNull = False"
| "truthy (JBoolean b) = b"
| "truthy (JNumber (Finite q)) = (q \<noteq> 0)"
| "truthy (JNumber PosInfinity) = True"
| "truthy (JNumber NegInfinity) = True"
| "truthy (JString s) = (s \<noteq> [])"
| "truthy JObject = True"

fun number_less :: "number \<Rightarrow> number \<Rightarrow> bool" where
  "number_less (Finite a) (Finite b) = (a < b)"
| "number_less (Finite a) PosInfinity = True"
| "number_less (Finite a) NegInfinity = False"
| "number_less PosInfinity b = False"
| "number_less NegInfinity (Finite b) = True"
| "number_less NegInfinity PosInfinity = True"
| "number_less NegInfinity NegInfinity = False"

text \<open>
  \<open>v < c\<close> and \<open>v > c\<close> against a numeric literal. The handlers evaluate them only
  behind \<open>typeof v !== 'number' ||\<close>, so only the numeric case is ever reached.
\<close>

fun js_less :: "jsval \<Rightarrow> rat \<Rightarrow> bool" where
  "js_less (JNumber n) c = number_less n (Finite c)"
| "js_less v c = False"

fun js_greater :: "jsval \<Rightarrow> rat \<Rightarrow> bool" where
  "js_greater (JNumber n) c = number_less (Finite c) n"
| "js_greater v c = False"

fun isInteger :: "jsval \<Rightarrow> bool" where
  "isInteger (JNumber (Finite q)) = (of_int \<lfloor>q\<rfloor> = q)"
| "isInteger v = False"

fun string_of :: "jsval \<Rightarrow> string" where
  "string_of (JString s) = s"
| "string_of v = []"

definition is_space :: "char \<Rightarrow> bool" where
  "is_space c = (c \<in> set [CHR 0x09, CHR 0x0A, CHR 0x0B, CHR 0x0C, CHR 0x0D, CHR 0x20, CHR 0xA0])"

definition trim :: "string \<Rightarrow> string" where
  "trim s = rev (dropWhile is_space (rev (dropWhile is_space s)))"

text \<open>
  \<open>trim\<close> removes white space and line terminators at both ends; \<open>toLowerCase\<close>
  maps the upper-case letters of the first 256 code points to their lower-case forms.
\<close>

definition toLowerCase :: "string \<Rightarrow> string" where
  "toLowerCase s =
     map (\<lambda>c. if (65 \<le> (of_char c :: nat) \<and> (of_char c :: nat) \<le> 90)
                 \<or> (192 \<le> (of_char c :: nat) \<and> (of_char c :: nat) \<le> 222
                     \<and> (of_char c :: nat) \<noteq> 215)
              then char_of ((of_char c :: nat) + 32) else c) s"

text \<open>A handler answers with \<open>json(body, {status})\<close> or with \<open>error(status, message)\<close>.\<close>

datatype reply = Json nat | Failure nat string

subsection \<open>Players\<close>

text \<open>
  A row of the table \<open>players\<close>. The table declares \<open>id\<close> a primary key, \<open>name\<close> and
  \<open>name_lower\<close> unique, and \<open>CHECK (skill >= 1 AND skill <= 10)\<close>; the column type
  \<open>INTEGER\<close> is an affinity in SQLite and keeps a number that has a fractional part.
\<close>

record player_row =
  row_id :: string
  row_name :: string
  row_name_lower :: string
  row_skill :: jsval

definition skill_check :: "jsval \<Rightarrow> bool" where
  "skill_check v = (typeof v = ''number'' \<and> \<not> js_less v 1 \<and> \<not> js_greater v 10)"

definition post_player ::
  "player_row list \<Rightarrow> string \<Rightarrow> jsval \<Rightarrow> jsval \<Rightarrow> reply \<times> player_row list" where
  "post_player db new_id name' skill =
     (if \<not> truthy name' \<or> typeof name' \<noteq> ''string'' \<or> length (trim (string_of name')) = 0
      then (Failure 400 ''Player name is required and must be a non-empty string.'', db)
      else if skill = JUndefined \<or> typeof skill \<noteq> ''number'' \<or> js_less skill 1 \<or> js_greater skill 10
      then (Failure 400 ''Player skill is required and must be an integer between 1 and 10.'', db)
      else
        let name_lower = toLowerCase (string_of name')
        in if \<exists>r \<in> set db. row_name_lower r = name_lower
           then (Failure 409 (''Player with name '' @ [CHR 0x22] @ string_of name' @ [CHR 0x22]
                              @ '' already exists.''), db)
           else if (\<exists>r \<in> set db. row_id r = new_id \<or> row_name r = string_of name')
                   \<or> \<not> skill_check skill
           then (Failure 500 ''Failed to add player'', db)
           else (Json 201,
                 db @ [\<lparr>row_id = new_id, row_name = string_of name',
                         row_name_lower = name_lower, row_skill = skill\<rparr>]))"

text \<open>
  \<open>PUT /api/players/:id\<close>. The \<open>UPDATE\<close> touches the row with the given id; it fails on
  a uniqueness or check violation, which the \<open>catch\<close> maps to 409 or 500. The result of
  \<open>run()\<close> on this database has no property \<open>changes\<close> (the count is under
  \<open>meta\<close>), so the test \<open>info.changes === 0\<close> is false and the branch behind it
  never runs: for an id that is not in the table the handler answers with
  \<open>json(null)\<close>, status 200.
\<close>

definition put_player ::
  "player_row list \<Rightarrow> string \<Rightarrow> jsval \<Rightarrow> jsval \<Rightarrow> reply \<times> player_row list" where
  "put_player db target name' skill =
     (if target = [] then (Failure 400 ''Player ID is required.'', db)
      else if \<not> truthy name' \<and> skill = JUndefined
      then (Failure 400 ''Either name or skill must be provided for an update.'', db)
      else if name' \<noteq> JUndefined \<and> (typeof name' \<noteq> ''string'' \<or> length (trim (string_of name')) = 0)
      then (Failure 400 ''Player name must be a non-empty string if provided.'', db)
      else if skill \<noteq> JUndefined \<and> (typeof skill \<noteq> ''number'' \<or> js_less skill 1 \<or> js_greater skill 10)
      then (Failure 400 ''Player skill must be an integer between 1 and 10 if provided.'', db)
      else if name' = JUndefined \<and> skill = JUndefined
      then (Failure 400 ''No valid fields to update.'', db)
      else if \<not> (\<exists>r \<in> set db. row_id r = target)
      then (Json 200, db)
      else if name' \<noteq> JUndefined \<and>
              (\<exists>r \<in> set db. row_id r \<noteq> target \<and> row_name_lower r = toLowerCase (string_of name'))
      then (Failure 409 (''Another player with name '' @ [CHR 0x22] @ string_of name' @ [CHR 0x22]
                         @ '' already exists.''), db)
      else if (name' \<noteq> JUndefined \<and> (\<exists>r \<in> set db. row_id r \<noteq> target \<and> row_name r = string_of name'))
              \<or> (skill \<noteq> JUndefined \<and> \<not> skill_check skill)
      then (Failure 500 ''Failed to update player'', db)
      else (Json 200,
            map (\<lambda>r. if row_id r = target
                      then r\<lparr>row_name := (if name' \<noteq> JUndefined then string_of name' else row_name r),
                             row_name_lower := (if name' \<noteq> JUndefined then toLowerCase (string_of name')
                                                else row_name_lower r),
                             row_skill := (if skill \<noteq> JUndefined then skill else row_skill r)\<rparr>
                      else r) db))"

subsection \<open>Outings\<close>

text \<open>
  A row of the table \<open>outings\<close>: \<open>id\<close> is the primary key; \<open>number_of_groups\<close> has no
  check constraint of its own, so the column holds whatever the handlers bind. As for
  players, the update of an id that is not in the table answers \<open>json(null)\<close> with
  status 200.
\<close>

record outing_row =
  o_id :: string
  o_name :: string
  o_number_of_groups :: jsval

definition post_outing ::
  "outing_row list \<Rightarrow> string \<Rightarrow> jsval \<Rightarrow> jsval \<Rightarrow> reply \<times> outing_row list" where
  "post_outing db new_id name' numberOfGroups =
     (if \<not> truthy name' \<or> typeof name' \<noteq> ''string'' \<or> length (trim (string_of name')) = 0
      then (Failure 400 ''Outing name is required and must be a non-empty string.'', db)
      else if numberOfGroups \<noteq> JUndefined \<and>
              (typeof numberOfGroups \<noteq> ''number'' \<or> \<not> isInteger numberOfGroups \<or> js_less numberOfGroups 1)
      then (Failure 400 ''Number of groups must be a positive integer if provided.'', db)
      else
        let numberOfGroups' = (if numberOfGroups = JUndefined then JNumber (Finite 3) else numberOfGroups)
        in if \<exists>r \<in> set db. o_id r = new_id
           then (Failure 500 ''Failed to create outing'', db)
           else (Json 201,
                 db @ [\<lparr>o_id = new_id, o_name = string_of name', o_number_of_groups = numberOfGroups'\<rparr>]))"

definition put_outing ::
  "outing_row list \<Rightarrow> string \<Rightarrow> jsval \<Rightarrow> jsval \<Rightarrow> reply \<times> outing_row list" where
  "put_outing db target name' numberOfGroups =
     (if target = [] then (Failure 400 ''Outing ID is required.'', db)
      else if name' = JUndefined \<and> numberOfGroups = JUndefined
      then (Failure 400 ''Either name or numberOfGroups must be provided for an update.'', db)
      else if name' \<noteq> JUndefined \<and> (typeof name' \<noteq> ''string'' \<or> length (trim (string_of name')) = 0)
      then (Failure 400 ''Outing name must be a non-empty string if provided.'', db)
      else if numberOfGroups \<noteq> JUndefined \<and>
              (typeof numberOfGroups \<noteq> ''number'' \<or> \<not> isInteger numberOfGroups \<or> js_less numberOfGroups 1)
      then (Failure 400 ''Number of groups must be a positive integer if provided.'', db)
      else if \<not> (\<exists>r \<in> set db. o_id r = target)
      then (Json 200, db)
      else (Json 200,
            map (\<lambda>r. if o_id r = target
                      then r\<lparr>o_name := (if name' \<noteq> JUndefined then string_of name' else o_name r),
                             o_number_of_groups := (if numberOfGroups \<noteq> JUndefined then numberOfGroups
                                                    else o_number_of_groups r)\<rparr>
                      else r) db))"

definition delete_outing :: "outing_row list \<Rightarrow> string \<Rightarrow> reply \<times> outing_row list" where
  "delete_outing db target =
     (if target = [] then (Failure 400 ''Outing ID is required.'', db)
      else if \<not> (\<exists>r \<in> set db. o_id r = target) then (Failure 404 ''Outing not found.'', db)
      else (Json 200, filter (\<lambda>r. o_id r \<noteq> target) db))"

text \<open>The stores the three writing handlers can produce, starting from the empty table.\<close>

inductive reachable :: "outing_row list \<Rightarrow> bool" where
  empty: "reachable []"
| post: "reachable db \<Longrightarrow> reachable (snd (post_outing db new_id name' numberOfGroups))"
| put: "reachable db \<Longrightarrow> reachable (snd (put_outing db target name' numberOfGroups))"
| delete: "reachable db \<Longrightarrow> reachable (snd (delete_outing db target))"

definition positive_integer :: "jsval \<Rightarrow> bool" where
  "positive_integer v = (isInteger v \<and> \<not> js_less v 1)"

text \<open>
  What the generation handler reads from an outing row: its name and its integral group
  count. The generator above is stated for integral counts.
\<close>

definition read_outing :: "outing_row \<Rightarrow> outing option" where
  "read_outing r =
     (case o_number_of_groups r of
        JNumber (Finite q) \<Rightarrow>
          if of_int \<lfloor>q\<rfloor> = q then Some \<lparr>outing_name = o_name r, number_of_groups = \<lfloor>q\<rfloor>\<rparr> else None
      | _ \<Rightarrow> None)"

section \<open>Properties used in the statements\<close>

text \<open>
  The state of the distribution loop is in range: there is at least one group, the array has
  one entry per group, the index points into it and the direction is a unit step.
\<close>

definition draft_inv :: "int \<Rightarrow> group list \<times> int \<times> int \<Rightarrow> bool" where
  "draft_inv n st = (1 \<le> n \<and> length (fst st) = nat n \<and> 0 \<le> fst (snd st) \<and> fst (snd st) < n
      \<and> (snd (snd st) = 1 \<or> snd (snd st) = - 1))"

text \<open>
  A collation is strict on a set of names when it orders them linearly and calls no two
  different names equal.
\<close>

definition strict_collation :: "(string \<Rightarrow> string \<Rightarrow> int) \<Rightarrow> string set \<Rightarrow> bool" where
  "strict_collation lc S =
     (\<forall>a \<in> S. \<forall>b \<in> S. (lc a b \<le> 0 \<or> lc b a \<le> 0) \<and> (lc a b \<le> 0 \<and> lc b a \<le> 0 \<longrightarrow> a = b)
        \<and> (\<forall>c \<in> S. lc a b \<le> 0 \<and> lc b c \<le> 0 \<longrightarrow> lc a c \<le> 0))"


text \<open>A skill as the data model has it: an integer from 1 to 10.\<close>

definition integer_skill :: "rat \<Rightarrow> bool" where
  "integer_skill s = (of_int \<lfloor>s\<rfloor> = s \<and> 1 \<le> s \<and> s \<le> 10)"

text \<open>
  The draws with \<open>b\<close> bits are the doubles \<open>m / 2 ^ b\<close> with \<open>m < 2 ^ b\<close>;
  \<open>draws_choosing b i j\<close> holds the numerators of those that make step \<open>i\<close> of the
  shuffle choose position \<open>j\<close>.
\<close>

definition draws_choosing :: "nat \<Rightarrow> nat \<Rightarrow> nat \<Rightarrow> nat set" where
  "draws_choosing b i j = {m. m < 2 ^ b \<and> random_index (of_nat m / 2 ^ b) i = j}"

section \<open>Sample inputs\<close>

text \<open>Ten players with the skills 10 down to 1, and an outing configured for three groups.\<close>

definition ten_players :: "player list" where
  "ten_players =
     map (\<lambda>k. \<lparr>player_id = ''id-'' @ number_to_string k, player_name = ''P'' @ number_to_string k,
               player_skill = of_nat k\<rparr>) [10, 9, 8, 7, 6, 5, 4, 3, 2, 1]"

definition three_groups :: outing where
  "three_groups = \<lparr>outing_name = ''Spring Open'', number_of_groups = 3\<rparr>"

text \<open>A collation that compares code units, and a source of draws that always returns one half.\<close>

fun code_unit_compare :: "string \<Rightarrow> string \<Rightarrow> int" where
  "code_unit_compare [] [] = 0"
| "code_unit_compare [] (y # ys) = - 1"
| "code_unit_compare (x # xs) [] = 1"
| "code_unit_compare (x # xs) (y # ys) =
     (if (of_char x :: nat) < of_char y then - 1
      else if (of_char y :: nat) < of_char x then 1
      else code_unit_compare xs ys)"

definition half :: "nat \<Rightarrow> rat" where
  "half k = 1 / 2"

text \<open>Three players, two of them of equal skill, in two different row orders.\<close>

definition three_players :: "player list" where
  "three_players =
     [\<lparr>player_id = ''a'', player_name = ''Ann'', player_skill = 5\<rparr>,
      \<lparr>player_id = ''b'', player_name = ''Bob'', player_skill = 5\<rparr>,
      \<lparr>player_id = ''c'', player_name = ''Cy'', player_skill = 7\<rparr>]"

definition three_players_reordered :: "player list" where
  "three_players_reordered =
     [\<lparr>player_id = ''b'', player_name = ''Bob'', player_skill = 5\<rparr>,
      \<lparr>player_id = ''c'', player_name = ''Cy'', player_skill = 7\<rparr>,
      \<lparr>player_id = ''a'', player_name = ''Ann'', player_skill = 5\<rparr>]"


text \<open>One player only, so that two of three groups stay empty.\<close>

definition one_player :: "player list" where
  "one_player = [\<lparr>player_id = ''a'', player_name = ''Ann'', player_skill = 5\<rparr>]"

text \<open>An outing table made by one creation without a group count and one update of it.\<close>

definition sample_outings :: "outing_row list" where
  "sample_outings =
     snd (put_outing (snd (post_outing [] ''o1'' (JString ''Spring Open'') JUndefined))
            ''o1'' JUndefined (JNumber (Finite 4)))"

text \<open>A store that holds the rows of three players at address 0.\<close>

definition sample_store :: store where
  "sample_store = \<lparr>arrays = (\<lambda>a. None)(0 \<mapsto> three_players), next_addr = 1\<rparr>"


text \<open>
  A collation that, as the platform's does, passes over the soft hyphen (code point AD), and
  two players of equal skill whose different names it therefore calls equal.
\<close>

definition soft_hyphen_collation :: "string \<Rightarrow> string \<Rightarrow> int" where
  "soft_hyphen_collation a b =
     code_unit_compare (filter (\<lambda>c. c \<noteq> CHR 0xAD) a) (filter (\<lambda>c. c \<noteq> CHR 0xAD) b)"

definition hyphen_players :: "player list" where
  "hyphen_players =
     [\<lparr>player_id = ''a'', player_name = ''Ann'', player_skill = 5\<rparr>,
      \<lparr>player_id = ''b'', player_name = ''An'' @ [CHR 0xAD] @ ''n'', player_skill = 5\<rparr>]"

definition hyphen_players_reordered :: "player list" where
  "hyphen_players_reordered =
     [\<lparr>player_id = ''b'', player_name = ''An'' @ [CHR 0xAD] @ ''n'', player_skill = 5\<rparr>,
      \<lparr>player_id = ''a'', player_name = ''Ann'', player_skill = 5\<rparr>]"

text \<open>An outing configured for 4294967296 groups, and one for a single group.\<close>

definition big_outing :: outing where
  "big_outing = \<lparr>outing_name = ''Big'', number_of_groups = 4294967296\<rparr>"

definition solo_outing :: outing where
  "solo_outing = \<lparr>outing_name = ''Solo'', number_of_groups = 1\<rparr>"

text \<open>Three players whose skills are the doubles written 3.3, 2.2 and 1.1.\<close>

definition fractional_players :: "player list" where
  "fractional_players =
     [\<lparr>player_id = ''x'', player_name = ''Xi'',
       player_skill = 3715469692580659 / 1125899906842624\<rparr>,
      \<lparr>player_id = ''y'', player_name = ''Yo'',
       player_skill = 2476979795053773 / 1125899906842624\<rparr>,
      \<lparr>player_id = ''z'', player_name = ''Zed'',
       player_skill = 2476979795053773 / 2251799813685248\<rparr>]"

text \<open>
  Two draws: the double written 0.6666666666666666, and a draw with 52 significant bits
  that lies just below five sixths.
\<close>

definition below_two_thirds :: rat where
  "below_two_thirds = 6004799503160661 / 9007199254740992"

definition below_five_sixths :: rat where
  "below_five_sixths = 3752999689475413 / 4503599627370496"

section \<open>Facts of double-precision arithmetic\<close>

lemma pow2_powi: "pow2 e = 2 powi e"
  by (simp add: pow2_def power_int_def inverse_eq_divide power_one_over)

lemma pow2_pos [simp]: "0 < pow2 e"
  by (simp add: pow2_powi)

lemma pow2_nz [simp]: "pow2 e \<noteq> 0"
  using pow2_pos [of e] by (simp del: pow2_pos)

lemma pow2_abs [simp]: "\<bar>pow2 e\<bar> = pow2 e"
  using pow2_pos [of e] by (simp del: pow2_pos)

lemma pow2_add: "pow2 (a + b) = pow2 a * pow2 b"
  by (simp add: pow2_powi power_int_add)

lemma pow2_nat: "0 \<le> e \<Longrightarrow> pow2 e = 2 ^ nat e"
  by (simp add: pow2_def)

lemma pow2_mono: "a \<le> b \<Longrightarrow> pow2 a \<le> pow2 b"
  by (simp add: pow2_powi power_int_increasing)

lemma pow2_strict_mono: "a < b \<Longrightarrow> pow2 a < pow2 b"
  by (simp add: pow2_powi power_int_strict_increasing)

lemma pow2_less_cancel: "pow2 a < pow2 b \<Longrightarrow> a < b"
  using pow2_mono [of b a] by (cases "a < b") auto

lemma pow2_0 [simp]: "pow2 0 = 1"
  by (simp add: pow2_def)

lemma pow2_diff: "pow2 (a - b) = pow2 a / pow2 b"
  by (simp add: pow2_powi power_int_diff)

lemma pow2_minus: "pow2 (- a) = 1 / pow2 a"
  using pow2_diff [of 0 a] by simp

lemma binary_exponent_bounds:
  assumes "x \<noteq> 0"
  shows "pow2 (binary_exponent x) \<le> \<bar>x\<bar>" and "\<bar>x\<bar> < pow2 (binary_exponent x + 1)"
proof -
  show "pow2 (binary_exponent x) \<le> \<bar>x\<bar>"
  proof (cases "1 \<le> \<bar>x\<bar>")
    case True
    let ?z = "\<lfloor>\<bar>x\<bar>\<rfloor>"
    have z: "0 < ?z" using True by simp
    have b1: "1 \<le> bitlen ?z" using z bitlen_eq_zero_iff [of ?z] bitlen_nonneg [of ?z] by linarith
    have "(2::int) ^ nat (bitlen ?z - 1) \<le> ?z" using bitlen_bounds [OF z] by simp
    then have "(of_int (2 ^ nat (bitlen ?z - 1)) :: rat) \<le> of_int ?z" by (simp only: of_int_le_iff)
    also have "\<dots> \<le> \<bar>x\<bar>" by simp
    finally show ?thesis using True b1 by (simp add: binary_exponent_def pow2_def)
  next
    case False
    let ?c = "\<lceil>1 / \<bar>x\<bar>\<rceil>"
    let ?b = "bitlen (?c - 1)"
    have xp: "0 < \<bar>x\<bar>" using assms by simp
    have y1: "1 < 1 / \<bar>x\<bar>" using False xp by simp
    then have c2: "2 \<le> ?c" by (simp add: le_ceiling_iff)
    then have c1: "0 < ?c - 1" by simp
    have "?c - 1 < 2 ^ nat ?b" using bitlen_bounds [OF c1] by simp
    then have "?c \<le> 2 ^ nat ?b" by simp
    then have "(of_int ?c :: rat) \<le> of_int (2 ^ nat ?b)" by (simp only: of_int_le_iff)
    then have A: "(of_int ?c :: rat) \<le> 2 ^ nat ?b" by simp
    have B: "1 / \<bar>x\<bar> \<le> of_int ?c" by (rule le_of_int_ceiling)
    from B A have "1 / \<bar>x\<bar> \<le> 2 ^ nat ?b" by (rule order_trans)
    then have "1 / 2 ^ nat ?b \<le> \<bar>x\<bar>" using xp
      by (simp add: field_simps)
    moreover have "0 \<le> ?b" by (rule bitlen_nonneg)
    ultimately show ?thesis using False
      by (auto simp: binary_exponent_def pow2_def)
  qed
  show "\<bar>x\<bar> < pow2 (binary_exponent x + 1)"
  proof (cases "1 \<le> \<bar>x\<bar>")
    case True
    let ?z = "\<lfloor>\<bar>x\<bar>\<rfloor>"
    have z: "0 < ?z" using True by simp
    have "?z < 2 ^ nat (bitlen ?z)" using bitlen_bounds [OF z] by simp
    then have "?z + 1 \<le> 2 ^ nat (bitlen ?z)" by simp
    then have "(of_int (?z + 1) :: rat) \<le> of_int (2 ^ nat (bitlen ?z))" by (simp only: of_int_le_iff)
    moreover have "\<bar>x\<bar> < of_int (?z + 1)" by linarith
    ultimately have "\<bar>x\<bar> < 2 ^ nat (bitlen ?z)" by simp
    then show ?thesis using True bitlen_nonneg [of ?z] by (simp add: binary_exponent_def pow2_def)
  next
    case False
    let ?c = "\<lceil>1 / \<bar>x\<bar>\<rceil>"
    let ?b = "bitlen (?c - 1)"
    have xp: "0 < \<bar>x\<bar>" using assms by simp
    have y1: "1 < 1 / \<bar>x\<bar>" using False xp by simp
    then have c2: "2 \<le> ?c" by (simp add: le_ceiling_iff)
    then have c1: "0 < ?c - 1" by simp
    have b1: "1 \<le> ?b" using c1 bitlen_eq_zero_iff [of "?c - 1"] bitlen_nonneg [of "?c - 1"] by linarith
    have "(2::int) ^ nat (?b - 1) \<le> ?c - 1" using bitlen_bounds [OF c1] by simp
    then have "(2::int) ^ nat (?b - 1) < ?c" by simp
    then have "(of_int (2 ^ nat (?b - 1)) :: rat) < 1 / \<bar>x\<bar>" by (simp only: less_ceiling_iff)
    then have "(2::rat) ^ nat (?b - 1) < 1 / \<bar>x\<bar>" by simp
    then have lt: "\<bar>x\<bar> < 1 / 2 ^ nat (?b - 1)" using xp by (simp add: field_simps)
    have "pow2 (- ?b + 1) = 1 / 2 ^ nat (?b - 1)"
    proof (cases "?b = 1")
      case True then show ?thesis by (simp add: pow2_def)
    next
      case False
      with b1 have "- ?b + 1 < 0" by simp
      then show ?thesis by (simp add: pow2_def algebra_simps)
    qed
    with lt show ?thesis using False by (simp add: binary_exponent_def)
  qed
qed

lemma binary_exponent_unique:
  assumes "pow2 e \<le> \<bar>x\<bar>" and "\<bar>x\<bar> < pow2 (e + 1)"
  shows "binary_exponent x = e"
proof -
  have nz: "x \<noteq> 0"
  proof
    assume "x = 0"
    with assms(1) have "pow2 e \<le> 0" by simp
    moreover have "0 < pow2 e" by simp
    ultimately show False by linarith
  qed
  note b = binary_exponent_bounds [OF nz]
  have "pow2 e < pow2 (binary_exponent x + 1)" using assms(1) b(2) by simp
  then have "e < binary_exponent x + 1" by (rule pow2_less_cancel)
  moreover have "pow2 (binary_exponent x) < pow2 (e + 1)" using assms(2) b(1) by simp
  then have "binary_exponent x < e + 1" by (rule pow2_less_cancel)
  ultimately show ?thesis by simp
qed

lemma round_half_even_error: "\<bar>of_int (round_half_even q) - q\<bar> \<le> 1 / 2"
proof -
  have "of_int \<lfloor>q\<rfloor> \<le> q" "q < of_int \<lfloor>q\<rfloor> + 1" by linarith+
  then show ?thesis
    by (auto simp: round_half_even_def Let_def abs_le_iff)
qed

lemma round_half_even_of_int [simp]: "round_half_even (of_int z) = z"
  by (simp add: round_half_even_def)

lemma round_half_even_ge_floor: "\<lfloor>q\<rfloor> \<le> round_half_even q"
  by (simp add: round_half_even_def Let_def)

lemma grid_pos: "0 < grid x"
  by (simp add: grid_def)

lemma round_double_grid: "x \<noteq> 0 \<Longrightarrow> round_double x = of_int (round_half_even (x / grid x)) * grid x"
  by (simp add: round_double_def)

lemma round_double_error:
  "\<bar>round_double x - x\<bar> \<le> grid x / 2"
proof (cases "x = 0")
  case True
  then show ?thesis using grid_pos [of x] by (simp add: round_double_def)
next
  case False
  let ?g = "grid x"
  have g: "0 < ?g" by (rule grid_pos)
  have "\<bar>of_int (round_half_even (x / ?g)) - x / ?g\<bar> \<le> 1 / 2"
    by (rule round_half_even_error)
  then have "\<bar>of_int (round_half_even (x / ?g)) - x / ?g\<bar> * ?g \<le> 1 / 2 * ?g"
    using g by (simp only: mult_le_cancel_right_pos)
  moreover have "\<bar>of_int (round_half_even (x / ?g)) - x / ?g\<bar> * ?g
      = \<bar>of_int (round_half_even (x / ?g)) * ?g - x\<bar>"
  proof -
    have "\<bar>of_int (round_half_even (x / ?g)) - x / ?g\<bar> * ?g
        = \<bar>(of_int (round_half_even (x / ?g)) - x / ?g) * ?g\<bar>"
      using g by (simp add: abs_mult)
    also have "(of_int (round_half_even (x / ?g)) - x / ?g) * ?g
        = of_int (round_half_even (x / ?g)) * ?g - x"
      using g by (simp add: left_diff_distrib)
    finally show ?thesis .
  qed
  ultimately show ?thesis unfolding round_double_grid [OF False] by simp
qed

lemma grid_le:
  assumes "x \<noteq> 0"
  shows "grid x \<le> \<bar>x\<bar> / 2 ^ 52 + 1 / 2 ^ 1074"
proof -
  let ?e = "binary_exponent x"
  have "pow2 (?e - 52) = pow2 ?e / 2 ^ 52"
    by (simp add: pow2_diff pow2_nat)
  also have "\<dots> \<le> \<bar>x\<bar> / 2 ^ 52"
    using binary_exponent_bounds(1) [OF assms] by (simp add: divide_right_mono)
  finally have a: "pow2 (?e - 52) \<le> \<bar>x\<bar> / 2 ^ 52" .
  have b: "pow2 (- 1074) = 1 / 2 ^ 1074" by (simp add: pow2_def)
  have c: "0 \<le> \<bar>x\<bar> / 2 ^ 52" by simp
  show ?thesis
  proof (cases "?e - 52 \<le> - 1074")
    case True
    then have "grid x = 1 / 2 ^ 1074" by (simp add: grid_def max_def b)
    with c show ?thesis by linarith
  next
    case False
    then have "grid x = pow2 (?e - 52)" by (simp add: grid_def max_def)
    with a show ?thesis by (simp add: add_increasing2)
  qed
qed

lemma round_double_rel_error:
  "\<bar>round_double x - x\<bar> \<le> \<bar>x\<bar> / 2 ^ 53 + 1 / 2 ^ 1075"
proof (cases "x = 0")
  case True
  then show ?thesis by (simp add: round_double_def)
next
  case False
  have "\<bar>round_double x - x\<bar> \<le> grid x / 2" by (rule round_double_error)
  also have "\<dots> \<le> (\<bar>x\<bar> / 2 ^ 52 + 1 / 2 ^ 1074) / 2"
    using grid_le [OF False] by (simp only: divide_right_mono zero_le_numeral)
  also have "\<dots> = \<bar>x\<bar> / 2 ^ 53 + 1 / 2 ^ 1075"
    by (simp add: add_divide_distrib)
  finally show ?thesis .
qed

lemma round_double_representable:
  assumes "\<bar>a\<bar> < 2 ^ 53" and "- 1074 \<le> t"
  shows "round_double (of_int a * pow2 t) = of_int a * pow2 t"
proof (cases "a = 0")
  case True
  then show ?thesis by (simp add: round_double_def)
next
  case False
  let ?x = "of_int a * pow2 t :: rat"
  let ?e = "binary_exponent ?x"
  let ?k = "max (?e - 52) (- 1074)"
  have nz: "?x \<noteq> 0" using False by simp
  have ax: "\<bar>?x\<bar> = of_int \<bar>a\<bar> * pow2 t" by (simp add: abs_mult)
  have "(of_int \<bar>a\<bar> :: rat) < of_int (2 ^ 53)" using assms(1) by (simp only: of_int_less_iff)
  then have "(of_int \<bar>a\<bar> :: rat) < pow2 53" by (simp add: pow2_def)
  then have "\<bar>?x\<bar> < pow2 53 * pow2 t" unfolding ax by (simp add: mult_strict_right_mono)
  then have "\<bar>?x\<bar> < pow2 (53 + t)" by (simp add: pow2_add)
  moreover have "pow2 ?e \<le> \<bar>?x\<bar>" using binary_exponent_bounds(1) [OF nz] .
  ultimately have "pow2 ?e < pow2 (53 + t)" by linarith
  then have "?e < 53 + t" by (rule pow2_less_cancel)
  then have kt: "?k \<le> t" using assms(2) by simp
  have "pow2 t = pow2 (t - ?k) * pow2 ?k"
    using pow2_add [of "t - ?k" ?k] by simp
  also have "pow2 (t - ?k) = of_int (2 ^ nat (t - ?k))"
    using kt by (simp add: pow2_nat)
  finally have pt: "pow2 t = of_int (2 ^ nat (t - ?k)) * pow2 ?k" .
  have "?x / grid ?x = of_int (a * 2 ^ nat (t - ?k))"
    unfolding grid_def by (subst pt) simp
  then have "round_half_even (?x / grid ?x) = a * 2 ^ nat (t - ?k)"
    by (simp only: round_half_even_of_int)
  then have "round_double ?x = of_int (a * 2 ^ nat (t - ?k)) * grid ?x"
    unfolding round_double_grid [OF nz] by simp
  also have "\<dots> = of_int a * (of_int (2 ^ nat (t - ?k)) * pow2 ?k)"
    by (simp add: grid_def)
  also have "\<dots> = ?x" by (simp only: pt [symmetric])
  finally show ?thesis .
qed

lemma round_double_of_int:
  assumes "\<bar>z\<bar> < 2 ^ 53"
  shows "round_double (of_int z) = of_int z"
  using round_double_representable [OF assms, of 0] by simp

lemma round_double_ge_floor:
  assumes "0 \<le> x" and "x < 2 ^ 53"
  shows "of_int \<lfloor>x\<rfloor> \<le> round_double x"
proof (cases "x = 0")
  case True
  then show ?thesis by (simp add: round_double_def)
next
  case False
  let ?e = "binary_exponent x"
  let ?k = "max (?e - 52) (- 1074)"
  have "pow2 ?e \<le> \<bar>x\<bar>" using binary_exponent_bounds(1) [OF False] .
  also have "\<bar>x\<bar> < pow2 53" using assms by (simp add: pow2_def)
  finally have "?e < 53" by (rule pow2_less_cancel)
  then have k0: "?k \<le> 0" by simp
  have "pow2 0 = pow2 (- ?k) * pow2 ?k" using pow2_add [of "- ?k" ?k] by simp
  also have "pow2 (- ?k) = of_int (2 ^ nat (- ?k))" using k0 by (simp add: pow2_nat)
  finally have one: "1 = of_int (2 ^ nat (- ?k)) * pow2 ?k" by simp
  let ?Z = "\<lfloor>x\<rfloor> * 2 ^ nat (- ?k)"
  have zg: "of_int ?Z * grid x = of_int \<lfloor>x\<rfloor>"
    using one by (simp add: grid_def mult.assoc)
  have g: "0 < grid x" by (rule grid_pos)
  have "of_int ?Z * grid x \<le> x" unfolding zg by simp
  then have "of_int ?Z \<le> x / grid x" using g by (simp add: pos_le_divide_eq)
  then have "?Z \<le> \<lfloor>x / grid x\<rfloor>" by (simp only: le_floor_iff)
  also have "\<dots> \<le> round_half_even (x / grid x)" by (rule round_half_even_ge_floor)
  finally have "(of_int ?Z :: rat) \<le> of_int (round_half_even (x / grid x))"
    by (simp only: of_int_le_iff)
  then have "of_int ?Z * grid x \<le> of_int (round_half_even (x / grid x)) * grid x"
    using g by (simp only: mult_le_cancel_right_pos)
  then show ?thesis unfolding round_double_grid [OF False] zg .
qed

lemma small_powers: "(1 / 2 ^ 1075 :: rat) < 1 / 2 ^ 53 * (1 / 2 ^ 53)" "(0::rat) < 1 / 2 ^ 1075"
  "(1 / 2 ^ 1075 :: rat) < 1 / 2 ^ 53"
  by simp_all

lemma draw_below_one:
  assumes "is_draw r"
  shows "r \<le> 1 - 1 / 2 ^ 53"
proof (cases "r < 1 / 2")
  case True
  have "(1 / 2 :: rat) \<le> 1 - 1 / 2 ^ 53" by simp
  with True show ?thesis by linarith
next
  case False
  from assms have r: "0 \<le> r" "r < 1" "round_double r = r" by (simp_all add: is_draw_def)
  have nz: "r \<noteq> 0" using False by auto
  have e: "binary_exponent r = - 1"
    by (rule binary_exponent_unique) (use False r in \<open>simp_all add: pow2_def\<close>)
  have g: "grid r = 1 / 2 ^ 53" by (simp add: grid_def e pow2_def)
  define z where "z = round_half_even (r / grid r)"
  have "round_double r = of_int z * grid r"
    unfolding z_def by (rule round_double_grid [OF nz])
  then have rz: "r = of_int z * (1 / 2 ^ 53)"
    unfolding g r(3) .
  then have "of_int z * (1 / 2 ^ 53) < (1::rat)" using r(2) by simp
  then have "(of_int z :: rat) < 2 ^ 53" by (simp add: field_simps)
  then have "(of_int z :: rat) < of_int (2 ^ 53)" by simp
  then have "z < 2 ^ 53" by (simp only: of_int_less_iff)
  then have "z \<le> 2 ^ 53 - 1" by simp
  then have "(of_int z :: rat) \<le> of_int (2 ^ 53 - 1)" by (simp only: of_int_le_iff)
  then have "(of_int z :: rat) \<le> 2 ^ 53 - 1" by simp
  then have "of_int z * (1 / 2 ^ 53) \<le> (2 ^ 53 - 1) * (1 / 2 ^ 53 :: rat)"
    by (rule mult_right_mono) simp
  also have "\<dots> = 1 - 1 / 2 ^ 53" by (simp add: field_simps)
  finally show ?thesis using rz by simp
qed

lemma round_double_nonneg:
  assumes "0 \<le> x"
  shows "0 \<le> round_double x"
proof (cases "x = 0")
  case True then show ?thesis by (simp add: round_double_def)
next
  case False
  have "0 \<le> x / grid x" using assms grid_pos [of x] by simp
  then have "0 \<le> \<lfloor>x / grid x\<rfloor>" by simp
  also have "\<dots> \<le> round_half_even (x / grid x)" by (rule round_half_even_ge_floor)
  finally have "0 \<le> (of_int (round_half_even (x / grid x)) :: rat)" by simp
  then show ?thesis unfolding round_double_grid [OF False] using grid_pos [of x] by simp
qed

lemma round_double_upper:
  assumes "0 \<le> x"
  shows "round_double x \<le> x + x / 2 ^ 53 + 1 / 2 ^ 1075"
  using round_double_rel_error [of x] assms by (simp add: abs_le_iff)

lemma round_double_lower:
  assumes "0 \<le> x"
  shows "x - x / 2 ^ 53 - 1 / 2 ^ 1075 \<le> round_double x"
  using round_double_rel_error [of x] assms by (simp add: abs_le_iff)

lemma below_aux:
  fixes n u v x R :: rat
  assumes "0 \<le> u" and "1 \<le> n" and "x \<le> (1 - u) * n" and "R \<le> x + x * u + v" and "v < u * u"
  shows "R < n"
proof -
  have "x * (1 + u) \<le> (1 - u) * n * (1 + u)"
    using assms(3) by (rule mult_right_mono) (use assms(1) in simp)
  also have "\<dots> = n - n * (u * u)" by (simp add: algebra_simps)
  finally have "x + x * u \<le> n - n * (u * u)" by (simp add: algebra_simps)
  moreover have "1 * (u * u) \<le> n * (u * u)"
    using assms(2) by (rule mult_right_mono) simp
  ultimately show ?thesis using assms(4,5) by linarith
qed

lemma product_below:
  assumes "is_draw r"
  shows "round_double (r * (of_nat i + 1)) < of_nat i + 1"
proof (rule below_aux)
  let ?x = "r * (of_nat i + 1)"
  from assms have r0: "0 \<le> r" by (simp add: is_draw_def)
  show "(0::rat) \<le> 1 / 2 ^ 53" by simp
  show "(1::rat) \<le> of_nat i + 1" by simp
  have "r \<le> 1 - 1 / 2 ^ 53" using assms by (rule draw_below_one)
  then show "?x \<le> (1 - 1 / 2 ^ 53) * (of_nat i + 1)"
    by (rule mult_right_mono) simp
  have "0 \<le> ?x" using r0 by simp
  then have "round_double ?x \<le> ?x + ?x / 2 ^ 53 + 1 / 2 ^ 1075" by (rule round_double_upper)
  then show "round_double ?x \<le> ?x + ?x * (1 / 2 ^ 53) + 1 / 2 ^ 1075" by simp
  show "(1 / 2 ^ 1075 :: rat) < 1 / 2 ^ 53 * (1 / 2 ^ 53)" by (rule small_powers(1))
qed

lemma random_index_le: "is_draw r \<Longrightarrow> random_index r i \<le> i"
proof -
  assume d: "is_draw r"
  have "round_double (r * (of_nat i + 1)) < of_int (int i + 1)"
    using product_below [OF d, of i] by simp
  then have "\<lfloor>round_double (r * (of_nat i + 1))\<rfloor> < int i + 1"
    by (simp only: floor_less_iff)
  then show ?thesis by (simp add: random_index_def)
qed

lemma length_bound: "i < 4294967295 \<Longrightarrow> (of_nat i + 1 :: rat) \<le> 4294967295"
proof -
  assume "i < 4294967295"
  then have "i + 1 \<le> 4294967295" by simp
  then have "(of_nat (i + 1) :: rat) \<le> of_nat 4294967295" by (simp only: of_nat_le_iff)
  then show ?thesis by simp
qed

lemma random_index_near_exact:
  assumes "is_draw r" and "i < 4294967295"
  shows "nat \<lfloor>r * (of_nat i + 1)\<rfloor> \<le> random_index r i"
    and "random_index r i \<le> nat \<lfloor>r * (of_nat i + 1)\<rfloor> + 1"
proof -
  let ?n = "of_nat i + 1 :: rat"
  let ?x = "r * ?n"
  from assms(1) have r: "0 \<le> r" "r < 1" by (simp_all add: is_draw_def)
  have n: "?n \<le> 4294967295" using assms(2) by (rule length_bound)
  have x0: "0 \<le> ?x" using r(1) by simp
  have "0 < ?n" by (simp add: add_pos_nonneg)
  with r(2) have "r * ?n < 1 * ?n" by (rule mult_strict_right_mono)
  then have xlt: "?x < ?n" by simp
  from xlt n have xn: "?x < 4294967295" by linarith
  then have x53: "?x < 2 ^ 53" by simp
  have lo: "of_int \<lfloor>?x\<rfloor> \<le> round_double ?x" using x0 x53 by (rule round_double_ge_floor)
  then have "\<lfloor>?x\<rfloor> \<le> \<lfloor>round_double ?x\<rfloor>" by (simp only: le_floor_iff)
  then show "nat \<lfloor>?x\<rfloor> \<le> random_index r i" by (simp add: random_index_def)
  have up: "round_double ?x \<le> ?x + ?x / 2 ^ 53 + 1 / 2 ^ 1075" using x0 by (rule round_double_upper)
  have "?x / 2 ^ 53 \<le> 4294967295 / 2 ^ 53" using xn by (simp add: divide_right_mono)
  then have small: "?x / 2 ^ 53 + 1 / 2 ^ 1075 < 1" using small_powers(3) by simp
  have "?x < of_int \<lfloor>?x\<rfloor> + 1" by linarith
  with up small have "round_double ?x < of_int (\<lfloor>?x\<rfloor> + 2)" by simp
  then have "\<lfloor>round_double ?x\<rfloor> < \<lfloor>?x\<rfloor> + 2" by (simp only: floor_less_iff)
  moreover have "0 \<le> \<lfloor>?x\<rfloor>" using x0 by simp
  ultimately show "random_index r i \<le> nat \<lfloor>?x\<rfloor> + 1" by (simp add: random_index_def)
qed

lemma floor_bracket:
  fixes x R e w c :: rat
  assumes "R \<le> x + e" and "x - e \<le> R" and "e < 1 / 4" and "c + 1 / 2 \<le> x"
    and "x < c + 1 / 2 + w" and "w < 1 / 4"
  shows "c \<le> R \<and> R < c + 1"
  using assms by linarith

lemma position_has_draw:
  assumes "j \<le> i" and "i < 4294967295"
  shows "\<exists>r. is_draw r \<and> random_index r i = j"
proof -
  let ?n = "of_nat i + 1 :: rat"
  let ?q = "(of_nat j + 1 / 2) * 2 ^ 52 / ?n"
  define m where "m = \<lceil>?q\<rceil>"
  define r :: rat where "r = of_int m * pow2 (- 52)"
  have n1: "1 \<le> ?n" by simp
  have np: "0 < ?n" by (simp add: add_pos_nonneg)
  have n: "?n \<le> 4294967295" using assms(2) by (rule length_bound)
  have jn: "(of_nat j :: rat) + 1 \<le> ?n" using assms(1) by simp
  have p52: "pow2 (- 52) = 1 / 2 ^ 52" by (simp add: pow2_def)
  have qn: "?q * ?n = (of_nat j + 1 / 2) * 2 ^ 52" using np by simp
  have q0: "0 < ?q" using np by (simp add: add_pos_nonneg)
  have m_lo: "?q \<le> of_int m" unfolding m_def by (rule le_of_int_ceiling)
  have m_hi: "of_int m < ?q + 1" unfolding m_def by linarith
  have "(0::rat) < of_int m" using q0 m_lo by (rule less_le_trans)
  then have m0: "0 < m" by simp
  \<comment> \<open>the draw is below one\<close>
  have "?q * ?n \<le> (2 ^ 52 - 1) * ?n"
  proof -
    have "(of_nat j + 1 / 2) * 2 ^ 52 \<le> (?n - 1 / 2) * (2 ^ 52 :: rat)"
      using jn by (intro mult_right_mono) simp_all
    also have "\<dots> = ?n * 2 ^ 52 - 2 ^ 51" by (simp add: algebra_simps)
    also have "\<dots> \<le> ?n * 2 ^ 52 - ?n" using n by simp
    also have "\<dots> = (2 ^ 52 - 1) * ?n" by (simp add: algebra_simps)
    finally show ?thesis unfolding qn .
  qed
  then have "?q \<le> 2 ^ 52 - 1" using np by (simp only: mult_le_cancel_right_pos)
  with m_hi have mlt: "(of_int m :: rat) < 2 ^ 52" by linarith
  then have "(of_int m :: rat) < of_int (2 ^ 52)" by simp
  then have m52: "m < 2 ^ 52" by (simp only: of_int_less_iff)
  have r0: "0 \<le> r" using m0 by (simp add: r_def p52)
  have r1: "r < 1" using mlt by (simp add: r_def p52)
  have "\<bar>m\<bar> < 2 ^ 53" using m0 m52 by simp
  then have rep: "round_double r = r"
    unfolding r_def by (rule round_double_representable) simp
  have d: "is_draw r" using r0 r1 rep by (simp add: is_draw_def)
  \<comment> \<open>the product lies in the middle of the position's unit interval\<close>
  let ?x = "r * ?n"
  have x_eq: "?x = of_int m * ?n / 2 ^ 52" by (simp add: r_def p52)
  have "(of_nat j + 1 / 2) * 2 ^ 52 \<le> of_int m * ?n"
    using mult_right_mono [OF m_lo, of ?n] np unfolding qn by simp
  then have x_lo: "of_nat j + 1 / 2 \<le> ?x" unfolding x_eq by (simp add: pos_le_divide_eq)
  have "of_int m * ?n < (?q + 1) * ?n"
    using m_hi np by (simp only: mult_less_cancel_right_pos)
  also have "\<dots> = (of_nat j + 1 / 2) * 2 ^ 52 + ?n" using qn by (simp add: algebra_simps)
  finally have "?x < ((of_nat j + 1 / 2) * 2 ^ 52 + ?n) / 2 ^ 52"
    unfolding x_eq by (simp add: divide_strict_right_mono)
  also have "\<dots> = of_nat j + 1 / 2 + ?n / 2 ^ 52" by (simp add: add_divide_distrib)
  finally have x_hi: "?x < of_nat j + 1 / 2 + ?n / 2 ^ 52" .
  have n_small: "?n / 2 ^ 52 < 1 / 4" 
  proof -
    have "?n / 2 ^ 52 \<le> 4294967295 / 2 ^ 52" using n by (simp add: divide_right_mono)
    then show ?thesis by simp
  qed
  have x0: "0 \<le> ?x" using r0 by simp
  from r1 np have "r * ?n < 1 * ?n" by (rule mult_strict_right_mono)
  then have xlt: "?x < ?n" by simp
  from xlt n have xn: "?x < 4294967295" by linarith
  have e_small: "?x / 2 ^ 53 + 1 / 2 ^ 1075 < 1 / 4"
  proof -
    have "?x / 2 ^ 53 \<le> 4294967295 / 2 ^ 53" using xn by (simp add: divide_right_mono)
    moreover have "(1 / 2 ^ 1075 :: rat) < 1 / 8" by simp
    ultimately show ?thesis by simp
  qed
  have up: "round_double ?x \<le> ?x + ?x / 2 ^ 53 + 1 / 2 ^ 1075" using x0 by (rule round_double_upper)
  have lo: "?x - ?x / 2 ^ 53 - 1 / 2 ^ 1075 \<le> round_double ?x" using x0 by (rule round_double_lower)
  have up': "round_double ?x \<le> ?x + (?x / 2 ^ 53 + 1 / 2 ^ 1075)" using up by (simp only: add.assoc)
  have lo': "?x - (?x / 2 ^ 53 + 1 / 2 ^ 1075) \<le> round_double ?x" using lo by (simp only: diff_diff_eq)
  have x_lo': "of_int (int j) + 1 / 2 \<le> ?x" using x_lo by simp
  have x_hi': "?x < of_int (int j) + 1 / 2 + ?n / 2 ^ 52" using x_hi by simp
  from floor_bracket [OF up' lo' e_small x_lo' x_hi' n_small]
  have "of_int (int j) \<le> round_double ?x" "round_double ?x < of_int (int j) + 1" by blast+
  then have "\<lfloor>round_double ?x\<rfloor> = int j" by (rule floor_unique)
  then have "random_index r i = j" by (simp add: random_index_def)
  with d show ?thesis by blast
qed

section \<open>The snake draft\<close>

lemma player_copy:
  "\<lparr>player_id = player_id p, player_name = player_name p, player_skill = player_skill p\<rparr> = (p::player)"
  by (cases p) simp

lemma assign_player_eq:
  "assign_player n (gs, gi, d) p =
     (if gi < 0 \<or> int (length gs) \<le> gi then None
      else Some (gs[nat gi := (gs ! nat gi)\<lparr>players := players (gs ! nat gi) @ [p],
                   totalSkill := double_add (totalSkill (gs ! nat gi)) (player_skill p)\<rparr>],
                 advance n (gi, d)))"
  by (simp add: assign_player_def Let_def player_copy)

text \<open>Sums of small whole numbers are exact.\<close>

lemma round_double_numeral:
  "(numeral w :: int) < 2 ^ 53 \<Longrightarrow> round_double (numeral w) = numeral w"
  using round_double_of_int [of "numeral w"] by simp

lemma groups_array_3: "groups_array 3 = Some (make_groups 3)"
  by (simp add: groups_array_def)

text \<open>At a boundary the index stays where it is and the direction flips.\<close>

lemma advance_turn:
  "0 \<le> gi \<Longrightarrow> gi < n \<Longrightarrow> d = 1 \<or> d = - 1 \<Longrightarrow> n \<le> gi + d \<or> gi + d < 0 \<Longrightarrow>
   advance n (gi, d) = (gi, - d)"
  by (auto simp: advance_def Let_def)

lemma upt_3: "[0..<3] = [0, Suc 0, Suc (Suc 0)]"
  by (simp add: numeral_eq_Suc upt_conv_Cons)

lemma make_groups_3:
  "make_groups 3 =
     [\<lparr>name = ''The Fairway Fanatics'', players = [], totalSkill = 0\<rparr>,
      \<lparr>name = ''The Driving Divas/Dudes'', players = [], totalSkill = 0\<rparr>,
      \<lparr>name = ''The Bogey Brigade'', players = [], totalSkill = 0\<rparr>]"
  by (simp add: make_groups_def group_name_def GOLF_GROUP_NAMES_def upt_3)

lemma ten_by_skill:
  assumes "map player_skill ps = [10, 9, 8, 7, 6, 5, 4, 3, 2, 1]"
  obtains p0 p1 p2 p3 p4 p5 p6 p7 p8 p9 where "ps = [p0, p1, p2, p3, p4, p5, p6, p7, p8, p9]"
  using assms by (auto simp: map_eq_Cons_conv)

lemma sort_descending_skills:
  assumes "map player_skill ps = [10, 9, 8, 7, 6, 5, 4, 3, 2, 1]"
  shows "array_sort (compare_players lc) ps = ps"
proof -
  from assms obtain p0 p1 p2 p3 p4 p5 p6 p7 p8 p9
    where ps: "ps = [p0, p1, p2, p3, p4, p5, p6, p7, p8, p9]"
    by (rule ten_by_skill)
  with assms show ?thesis
    by (simp add: array_sort_def compare_players_def)
qed

lemma distribute_ten:
  assumes "map player_skill [p0, p1, p2, p3, p4, p5, p6, p7, p8, p9] = [10, 9, 8, 7, 6, 5, 4, 3, 2, 1]"
  shows "distribute 3 (make_groups 3, 0, 1) [p0, p1, p2, p3, p4, p5, p6, p7, p8, p9] =
     Some ([\<lparr>name = ''The Fairway Fanatics'', players = [p0, p5, p6], totalSkill = 19\<rparr>,
            \<lparr>name = ''The Driving Divas/Dudes'', players = [p1, p4, p7], totalSkill = 18\<rparr>,
            \<lparr>name = ''The Bogey Brigade'', players = [p2, p3, p8, p9], totalSkill = 18\<rparr>], 1, - 1)"
  using assms unfolding make_groups_3
  by (simp add: assign_player_eq advance_def double_add_def round_double_numeral)

text \<open>
  Claim C1. In balanced mode, ten players whose skills are 10, 9, ..., 1 (whatever their ids
  and names, and whatever the collation) and an outing with three groups: the state machine
  visits the group indices 0,1,2,2,1,0,0,1,2,2; group 0 receives the players of skill 10, 5
  and 4, group 1 those of skill 9, 6 and 3, group 2 those of skill 8, 7, 2 and 1; the totals
  are 19, 18 and 18. At both boundaries the index stays on the boundary group for the next
  player while the direction reverses.
\<close>

theorem snake_draft_ten_players:
  assumes "map player_skill ps = [10, 9, 8, 7, 6, 5, 4, 3, 2, 1]"
    and "number_of_groups outing = 3"
  shows "index_path 3 (0, 1) 10 = [0, 1, 2, 2, 1, 0, 0, 1, 2, 2]
    \<and> generate_groups lc random False outing ps =
        Json_Groups (outing_name outing) 3
          [\<lparr>name = ''The Fairway Fanatics'', players = [ps ! 0, ps ! 5, ps ! 6], totalSkill = 19\<rparr>,
           \<lparr>name = ''The Driving Divas/Dudes'', players = [ps ! 1, ps ! 4, ps ! 7], totalSkill = 18\<rparr>,
           \<lparr>name = ''The Bogey Brigade'', players = [ps ! 2, ps ! 3, ps ! 8, ps ! 9], totalSkill = 18\<rparr>]
    \<and> map player_skill [ps ! 0, ps ! 5, ps ! 6] = [10, 5, 4]
    \<and> map player_skill [ps ! 1, ps ! 4, ps ! 7] = [9, 6, 3]
    \<and> map player_skill [ps ! 2, ps ! 3, ps ! 8, ps ! 9] = [8, 7, 2, 1]
    \<and> advance 3 (2, 1) = (2, - 1) \<and> advance 3 (0, - 1) = (0, 1)"
proof -
  from assms(1) obtain p0 p1 p2 p3 p4 p5 p6 p7 p8 p9
    where ps: "ps = [p0, p1, p2, p3, p4, p5, p6, p7, p8, p9]"
    by (rule ten_by_skill)
  have path: "index_path 3 (0, 1) 10 = [0, 1, 2, 2, 1, 0, 0, 1, 2, 2]"
    by code_simp
  have ordered: "order_players lc random False ps = ps"
    using sort_descending_skills [OF assms(1)] by (simp add: order_players_def)
  have dist: "distribute 3 (make_groups 3, 0, 1) ps =
     Some ([\<lparr>name = ''The Fairway Fanatics'', players = [p0, p5, p6], totalSkill = 19\<rparr>,
            \<lparr>name = ''The Driving Divas/Dudes'', players = [p1, p4, p7], totalSkill = 18\<rparr>,
            \<lparr>name = ''The Bogey Brigade'', players = [p2, p3, p8, p9], totalSkill = 18\<rparr>], 1, - 1)"
    using assms(1) unfolding ps by (rule distribute_ten)
  have gen: "generate_groups lc random False outing ps =
        Json_Groups (outing_name outing) 3
          [\<lparr>name = ''The Fairway Fanatics'', players = [ps ! 0, ps ! 5, ps ! 6], totalSkill = 19\<rparr>,
           \<lparr>name = ''The Driving Divas/Dudes'', players = [ps ! 1, ps ! 4, ps ! 7], totalSkill = 18\<rparr>,
           \<lparr>name = ''The Bogey Brigade'', players = [ps ! 2, ps ! 3, ps ! 8, ps ! 9], totalSkill = 18\<rparr>]"
    unfolding generate_groups_def Let_def ordered assms(2) groups_array_3 option.case dist
    using assms(1) by (simp add: ps recalculate_def double_add_def round_double_numeral)
  have skills: "map player_skill [ps ! 0, ps ! 5, ps ! 6] = [10, 5, 4]"
    "map player_skill [ps ! 1, ps ! 4, ps ! 7] = [9, 6, 3]"
    "map player_skill [ps ! 2, ps ! 3, ps ! 8, ps ! 9] = [8, 7, 2, 1]"
    using assms(1) by (simp_all add: ps)
  have turns: "advance 3 (2, 1) = (2, - 1)" "advance 3 (0, - 1) = (0, 1)"
    by (simp_all add: advance_def)
  from path gen skills turns show ?thesis by blast
qed

theorem snake_draft_ten_players_witness:
  "map player_skill ten_players = [10, 9, 8, 7, 6, 5, 4, 3, 2, 1]
   \<and> number_of_groups three_groups = 3
   \<and> generate_groups code_unit_compare half False three_groups ten_players =
       Json_Groups ''Spring Open'' 3
          [\<lparr>name = ''The Fairway Fanatics'',
            players = [ten_players ! 0, ten_players ! 5, ten_players ! 6], totalSkill = 19\<rparr>,
           \<lparr>name = ''The Driving Divas/Dudes'',
            players = [ten_players ! 1, ten_players ! 4, ten_players ! 7], totalSkill = 18\<rparr>,
           \<lparr>name = ''The Bogey Brigade'',
            players = [ten_players ! 2, ten_players ! 3, ten_players ! 8, ten_players ! 9],
            totalSkill = 18\<rparr>]"
proof -
  have h1: "map player_skill ten_players = [10, 9, 8, 7, 6, 5, 4, 3, 2, 1]"
    by (simp add: ten_players_def)
  have h2: "number_of_groups three_groups = 3"
    by (simp add: three_groups_def)
  have h3: "outing_name three_groups = ''Spring Open''"
    by (simp add: three_groups_def)
  from snake_draft_ten_players [OF h1 h2, of code_unit_compare half] h1 h2 h3
  show ?thesis by simp
qed

section \<open>The distribution loop in general\<close>

lemma advance_inv:
  "0 \<le> gi \<Longrightarrow> gi < n \<Longrightarrow> d = 1 \<or> d = - 1 \<Longrightarrow>
   0 \<le> fst (advance n (gi, d)) \<and> fst (advance n (gi, d)) < n
   \<and> (snd (advance n (gi, d)) = 1 \<or> snd (advance n (gi, d)) = - 1)"
  by (auto simp: advance_def Let_def)

lemma mset_concat_players_update:
  assumes "i < length gs" and "players g = players (gs ! i) @ [p]"
  shows "mset (concat (map players (gs[i := g]))) = mset (concat (map players gs)) + {#p#}"
proof -
  have gs: "gs = take i gs @ (gs ! i) # drop (Suc i) gs"
    using assms(1) by (simp add: id_take_nth_drop)
  have upd: "gs[i := g] = take i gs @ g # drop (Suc i) gs"
    using assms(1) by (simp add: upd_conv_take_nth_drop)
  have "mset (concat (map players (gs[i := g])))
      = mset (concat (map players (take i gs))) + mset (players g) + mset (concat (map players (drop (Suc i) gs)))"
    unfolding upd by simp
  also have "\<dots> = mset (concat (map players (take i gs))) + mset (players (gs ! i))
        + mset (concat (map players (drop (Suc i) gs))) + {#p#}"
    by (simp add: assms(2))
  also have "\<dots> = mset (concat (map players (take i gs @ (gs ! i) # drop (Suc i) gs))) + {#p#}"
    by simp
  finally show ?thesis using gs by simp
qed

lemma assign_player_step:
  assumes "draft_inv n (gs, gi, d)"
  shows "\<exists>gs' gi' d'. assign_player n (gs, gi, d) p = Some (gs', gi', d')
     \<and> draft_inv n (gs', gi', d')
     \<and> map name gs' = map name gs
     \<and> mset (concat (map players gs')) = mset (concat (map players gs)) + {#p#}"
proof -
  let ?i = "nat gi"
  let ?g = "(gs ! ?i)\<lparr>players := players (gs ! ?i) @ [p],
                   totalSkill := double_add (totalSkill (gs ! ?i)) (player_skill p)\<rparr>"
  from assms have rng: "0 \<le> gi" "gi < n" "length gs = nat n" "d = 1 \<or> d = - 1" "1 \<le> n"
    by (simp_all add: draft_inv_def)
  then have i: "?i < length gs" by simp
  have eq: "assign_player n (gs, gi, d) p = Some (gs[?i := ?g], advance n (gi, d))"
    using rng by (simp add: assign_player_eq)
  have nm: "map name (gs[?i := ?g]) = map name gs"
    using i by (simp add: map_update list_update_same_conv)
  have ms: "mset (concat (map players (gs[?i := ?g]))) = mset (concat (map players gs)) + {#p#}"
    using i by (rule mset_concat_players_update) simp
  have inv': "draft_inv n (gs[?i := ?g], fst (advance n (gi, d)), snd (advance n (gi, d)))"
    using advance_inv [OF rng(1,2,4)] rng by (simp add: draft_inv_def)
  show ?thesis
    using eq nm ms inv' by (metis prod.collapse)
qed

lemma distribute_total:
  assumes "draft_inv n st"
  shows "\<exists>st'. distribute n st ps = Some st' \<and> draft_inv n st'
     \<and> map name (fst st') = map name (fst st)
     \<and> mset (concat (map players (fst st'))) = mset (concat (map players (fst st))) + mset ps"
  using assms
proof (induction ps arbitrary: st)
  case Nil
  then show ?case by simp
next
  case (Cons p ps)
  obtain gs gi d where st: "st = (gs, gi, d)" by (cases st) auto
  from assign_player_step [of n gs gi d p] Cons.prems st
  obtain gs' gi' d' where a: "assign_player n st p = Some (gs', gi', d')"
    and inv: "draft_inv n (gs', gi', d')"
    and nm: "map name gs' = map name gs"
    and ms: "mset (concat (map players gs')) = mset (concat (map players gs)) + {#p#}"
    by blast
  from Cons.IH [OF inv] obtain st' where d: "distribute n (gs', gi', d') ps = Some st'"
    and inv': "draft_inv n st'"
    and nm': "map name (fst st') = map name gs'"
    and ms': "mset (concat (map players (fst st'))) = mset (concat (map players gs')) + mset ps"
    by auto
  show ?case
    using a d inv' nm nm' ms ms' st by (simp add: ac_simps)
qed

lemma make_groups_props:
  "length (make_groups n) = nat n"
  "map name (make_groups n) = map group_name [0..<nat n]"
  "concat (map players (make_groups n)) = []"
  by (simp_all add: make_groups_def comp_def)

lemma draft_inv_init: "1 \<le> n \<Longrightarrow> draft_inv n (make_groups n, 0, 1)"
  by (simp add: draft_inv_def make_groups_props)

lemma recalculate_props:
  "name (recalculate g) = name g" "players (recalculate g) = players g"
  "totalSkill (recalculate g) = foldl (\<lambda>sum p. double_add sum (player_skill p)) 0 (players g)"
  by (simp_all add: recalculate_def)

text \<open>
  The running sum of skills that are integers from 1 to 10 is exact as long as it stays
  below \<open>2 ^ 53\<close>.
\<close>

lemma double_sum_integers:
  assumes "\<forall>p \<in> set ps. integer_skill (player_skill p)"
    and "0 \<le> a" and "a + 10 * int (length ps) < 2 ^ 53"
  shows "foldl (\<lambda>sum p. double_add sum (player_skill p)) (of_int a) ps =
     of_int a + sum_list (map player_skill ps)"
  using assms
proof (induction ps arbitrary: a)
  case Nil
  then show ?case by simp
next
  case (Cons p ps)
  define z where "z = \<lfloor>player_skill p\<rfloor>"
  from Cons.prems(1) have isk: "integer_skill (player_skill p)" by simp
  then have sk: "player_skill p = of_int z" unfolding integer_skill_def z_def by (elim conjE) (rule sym)
  from isk have "1 \<le> player_skill p" and "player_skill p \<le> 10"
    by (simp_all add: integer_skill_def)
  then have z1: "1 \<le> z" and z10: "z \<le> 10" unfolding sk by simp_all
  have "\<bar>a + z\<bar> < 2 ^ 53" using Cons.prems(2,3) z1 z10 by simp
  then have "round_double (of_int (a + z)) = of_int (a + z)" by (rule round_double_of_int)
  then have step: "double_add (of_int a) (player_skill p) = of_int (a + z)"
    by (simp add: double_add_def sk)
  have "foldl (\<lambda>sum p. double_add sum (player_skill p)) (of_int (a + z)) ps =
      of_int (a + z) + sum_list (map player_skill ps)"
    using Cons.prems z1 z10 by (intro Cons.IH) simp_all
  moreover have "foldl (\<lambda>sum p. double_add sum (player_skill p)) (of_int a) (p # ps) =
      foldl (\<lambda>sum p. double_add sum (player_skill p)) (of_int (a + z)) ps"
    by (simp only: foldl_Cons step)
  ultimately show ?case by (simp add: sk)
qed

lemma members_of_group:
  "g \<in> set gs \<Longrightarrow> mset (players g) \<subseteq># mset (concat (map players gs))"
  by (induction gs) (auto intro: subset_mset.order_trans)

lemma mset_swap': "i < length xs \<Longrightarrow> j < length xs \<Longrightarrow> mset (swap i j xs) = mset xs"
  unfolding swap_def by (simp add: mset_swap)

lemma length_swap [simp]: "length (swap i j xs) = length xs"
  by (simp add: swap_def)

lemma fisher_yates_mset:
  "random_ok random \<Longrightarrow> i < length xs \<Longrightarrow> mset (fst (fisher_yates random k i xs)) = mset xs"
proof (induction i arbitrary: k xs)
  case 0
  then show ?case by simp
next
  case (Suc i)
  let ?j = "random_index (random k) (Suc i)"
  have "?j \<le> Suc i" using Suc.prems(1) by (simp add: random_ok_def random_index_le)
  then have "mset (swap (Suc i) ?j xs) = mset xs"
    using Suc.prems(2) by (simp add: mset_swap')
  moreover have "mset (fst (fisher_yates random (Suc k) i (swap (Suc i) ?j xs))) = mset (swap (Suc i) ?j xs)"
    using Suc.prems by (intro Suc.IH) simp_all
  ultimately show ?case by (simp add: Let_def)
qed

lemma mset_insert_sorted: "mset (insert_sorted cmp x xs) = add_mset x (mset xs)"
  by (induction xs) simp_all

lemma mset_array_sort: "mset (array_sort cmp xs) = mset xs"
  by (induction xs) (simp_all add: array_sort_def mset_insert_sorted)

lemma mset_order_players:
  assumes "shuffle \<longrightarrow> random_ok random"
  shows "mset (order_players lc random shuffle ps) = mset ps"
proof (cases shuffle)
  case sh: True
  show ?thesis
  proof (cases ps)
    case Nil
    with sh show ?thesis by (simp add: order_players_def shuffle_players_def)
  next
    case (Cons p qs)
    then have "length ps - 1 < length ps" by simp
    with assms sh show ?thesis
      by (simp add: order_players_def shuffle_players_def fisher_yates_mset)
  qed
next
  case False
  then show ?thesis by (simp add: order_players_def mset_array_sort)
qed

lemma generate_groups_result:
  assumes "1 \<le> number_of_groups outing" and "number_of_groups outing \<le> 4294967295"
    and "ps \<noteq> []" and "shuffle \<longrightarrow> random_ok random"
  shows "\<exists>gs. generate_groups lc random shuffle outing ps =
            Json_Groups (outing_name outing) (number_of_groups outing) gs
     \<and> length gs = nat (number_of_groups outing)
     \<and> map name gs = map group_name [0..<nat (number_of_groups outing)]
     \<and> mset (concat (map players gs)) = mset ps
     \<and> (\<forall>g \<in> set gs. totalSkill g =
           foldl (\<lambda>sum p. double_add sum (player_skill p)) 0 (players g))"
proof -
  let ?n = "number_of_groups outing"
  let ?cur = "order_players lc random shuffle ps"
  have ga: "groups_array ?n = Some (make_groups ?n)"
    using assms(2) by (simp add: groups_array_def)
  from distribute_total [OF draft_inv_init [OF assms(1)], of ?cur]
  obtain st' where d: "distribute ?n (make_groups ?n, 0, 1) ?cur = Some st'"
    and inv: "draft_inv ?n st'"
    and nm: "map name (fst st') = map name (make_groups ?n)"
    and ms: "mset (concat (map players (fst st'))) = mset (concat (map players (make_groups ?n))) + mset ?cur"
    by auto
  let ?gs = "map recalculate (fst st')"
  have g: "generate_groups lc random shuffle outing ps = Json_Groups (outing_name outing) ?n ?gs"
    using assms(3) d ga by (simp add: generate_groups_def Let_def)
  have len: "length ?gs = nat ?n" using inv by (simp add: draft_inv_def)
  have nm': "map name ?gs = map group_name [0..<nat ?n]"
    using nm by (simp add: comp_def recalculate_props make_groups_props)
  have ms': "mset (concat (map players ?gs)) = mset ps"
    using ms mset_order_players [OF assms(4)]
    by (simp add: comp_def recalculate_props make_groups_props)
  have tot: "\<forall>g \<in> set ?gs. totalSkill g =
      foldl (\<lambda>sum p. double_add sum (player_skill p)) 0 (players g)"
    by (auto simp: recalculate_props)
  from g len nm' ms' tot show ?thesis by blast
qed

text \<open>
  For integer skills and an array of players (fewer than 4294967296 of them) the double sum
  of every group is the exact sum.
\<close>

lemma group_sum_exact:
  assumes "mset (concat (map players gs)) = mset ps" and "g \<in> set gs"
    and "\<forall>p \<in> set ps. integer_skill (player_skill p)" and "length ps \<le> 4294967295"
  shows "foldl (\<lambda>sum p. double_add sum (player_skill p)) 0 (players g) =
     sum_list (map player_skill (players g))"
proof -
  have sub: "mset (players g) \<subseteq># mset ps"
    using members_of_group [OF assms(2)] assms(1) by simp
  then have "set (players g) \<subseteq> set ps" by (metis set_mset_mono set_mset_mset)
  then have ints: "\<forall>p \<in> set (players g). integer_skill (player_skill p)"
    using assms(3) by blast
  have "length (players g) \<le> length ps"
    using sub by (metis size_mset size_mset_mono)
  then have "0 + 10 * int (length (players g)) < 2 ^ 53" using assms(4) by simp
  from double_sum_integers [OF ints _ this] show ?thesis by simp
qed

section \<open>The balanced order\<close>

lemma set_insert_sorted: "set (insert_sorted cmp x xs) = insert x (set xs)"
  by (induction xs) auto

lemma set_array_sort: "set (array_sort cmp xs) = set xs"
  by (induction xs) (simp_all add: array_sort_def set_insert_sorted)

lemma sorted_insert_sorted:
  assumes tot: "\<And>a b. a \<in> S \<Longrightarrow> b \<in> S \<Longrightarrow> cmp a b \<le> 0 \<or> cmp b a \<le> 0"
    and tr: "\<And>a b c. a \<in> S \<Longrightarrow> b \<in> S \<Longrightarrow> c \<in> S \<Longrightarrow> cmp a b \<le> 0 \<Longrightarrow> cmp b c \<le> 0 \<Longrightarrow> cmp a c \<le> 0"
  shows "x \<in> S \<Longrightarrow> set xs \<subseteq> S \<Longrightarrow> sorted_wrt (\<lambda>a b. cmp a b \<le> 0) xs
     \<Longrightarrow> sorted_wrt (\<lambda>a b. cmp a b \<le> 0) (insert_sorted cmp x xs)"
proof (induction xs)
  case Nil
  then show ?case by simp
next
  case (Cons y ys)
  show ?case
  proof (cases "cmp x y \<le> 0")
    case True
    have "cmp x z \<le> 0" if "z \<in> set ys" for z
    proof -
      have "cmp y z \<le> 0" using Cons.prems(3) that by simp
      with True show ?thesis using tr [of x y z] Cons.prems(1,2) that by auto
    qed
    with True Cons.prems(3) show ?thesis by simp
  next
    case False
    then have yx: "cmp y x \<le> 0" using tot [of x y] Cons.prems(1,2) by auto
    have "sorted_wrt (\<lambda>a b. cmp a b \<le> 0) (insert_sorted cmp x ys)"
      using Cons.IH Cons.prems by simp
    with False yx Cons.prems(3) show ?thesis
      by (simp add: set_insert_sorted)
  qed
qed

lemma sorted_array_sort:
  assumes tot: "\<And>a b. a \<in> S \<Longrightarrow> b \<in> S \<Longrightarrow> cmp a b \<le> 0 \<or> cmp b a \<le> 0"
    and tr: "\<And>a b c. a \<in> S \<Longrightarrow> b \<in> S \<Longrightarrow> c \<in> S \<Longrightarrow> cmp a b \<le> 0 \<Longrightarrow> cmp b c \<le> 0 \<Longrightarrow> cmp a c \<le> 0"
  shows "set xs \<subseteq> S \<Longrightarrow> sorted_wrt (\<lambda>a b. cmp a b \<le> 0) (array_sort cmp xs)"
proof (induction xs)
  case Nil
  then show ?case by (simp add: array_sort_def)
next
  case (Cons x xs)
  have s: "sorted_wrt (\<lambda>a b. cmp a b \<le> 0) (array_sort cmp xs)"
    using Cons by simp
  have x: "x \<in> S" and sub: "set (array_sort cmp xs) \<subseteq> S"
    using Cons.prems by (simp_all add: set_array_sort)
  have "sorted_wrt (\<lambda>a b. cmp a b \<le> 0) (insert_sorted cmp x (array_sort cmp xs))"
    using tot tr x sub s by (rule sorted_insert_sorted [where S = S])
  then show ?case by (simp add: array_sort_def)
qed

lemma sorted_unique:
  assumes anti: "\<And>a b. a \<in> S \<Longrightarrow> b \<in> S \<Longrightarrow> cmp a b \<le> 0 \<Longrightarrow> cmp b a \<le> 0 \<Longrightarrow> a = b"
  shows "set xs \<subseteq> S \<Longrightarrow> mset xs = mset ys \<Longrightarrow> sorted_wrt (\<lambda>a b. cmp a b \<le> (0::rat)) xs
     \<Longrightarrow> sorted_wrt (\<lambda>a b. cmp a b \<le> 0) ys \<Longrightarrow> xs = ys"
proof (induction xs arbitrary: ys)
  case Nil
  then show ?case by simp
next
  case (Cons x xs)
  from Cons.prems(2) obtain y ys' where ys: "ys = y # ys'"
    by (cases ys) auto
  have sets: "set (x # xs) = set (y # ys')"
    using Cons.prems(2) ys by (metis mset_eq_setD)
  have xy: "x = y"
  proof (rule ccontr)
    assume ne: "x \<noteq> y"
    then have "x \<in> set ys'" "y \<in> set xs" using sets by auto
    then have "cmp y x \<le> 0" "cmp x y \<le> 0"
      using Cons.prems(3,4) ys by auto
    moreover have "x \<in> S" "y \<in> S" using Cons.prems(1) sets by auto
    ultimately show False using anti ne by blast
  qed
  have "xs = ys'"
    using Cons.prems ys xy by (intro Cons.IH) auto
  with xy ys show ?case by simp
qed

lemma compare_players_order:
  assumes sc: "strict_collation lc (player_name ` set ps)"
    and dn: "distinct (map player_name ps)"
  shows "\<And>a b. a \<in> set ps \<Longrightarrow> b \<in> set ps \<Longrightarrow>
           compare_players lc a b \<le> 0 \<or> compare_players lc b a \<le> 0"
    and "\<And>a b c. a \<in> set ps \<Longrightarrow> b \<in> set ps \<Longrightarrow> c \<in> set ps \<Longrightarrow>
           compare_players lc a b \<le> 0 \<Longrightarrow> compare_players lc b c \<le> 0 \<Longrightarrow> compare_players lc a c \<le> 0"
    and "\<And>a b. a \<in> set ps \<Longrightarrow> b \<in> set ps \<Longrightarrow>
           compare_players lc a b \<le> 0 \<Longrightarrow> compare_players lc b a \<le> 0 \<Longrightarrow> a = b"
proof -
  let ?N = "player_name ` set ps"
  have tot: "lc x y \<le> 0 \<or> lc y x \<le> 0" if "x \<in> ?N" "y \<in> ?N" for x y
    using sc that unfolding strict_collation_def by blast
  have anti: "x = y" if "x \<in> ?N" "y \<in> ?N" "lc x y \<le> 0" "lc y x \<le> 0" for x y
    using sc that unfolding strict_collation_def by blast
  have tr: "lc x z \<le> 0" if "x \<in> ?N" "y \<in> ?N" "z \<in> ?N" "lc x y \<le> 0" "lc y z \<le> 0" for x y z
    using sc that unfolding strict_collation_def by blast
  have inj: "inj_on player_name (set ps)"
    using dn by (simp add: distinct_map)
  show "compare_players lc a b \<le> 0 \<or> compare_players lc b a \<le> 0"
    if "a \<in> set ps" "b \<in> set ps" for a b
    using tot [of "player_name a" "player_name b"] that
    by (auto simp: compare_players_def)
  show "compare_players lc a c \<le> 0"
    if "a \<in> set ps" "b \<in> set ps" "c \<in> set ps"
      "compare_players lc a b \<le> 0" "compare_players lc b c \<le> 0" for a b c
    using tr [of "player_name a" "player_name b" "player_name c"] that
    by (auto simp: compare_players_def split: if_splits)
  show "a = b"
    if "a \<in> set ps" "b \<in> set ps" "compare_players lc a b \<le> 0" "compare_players lc b a \<le> 0" for a b
  proof -
    have "player_name a = player_name b"
      using anti [of "player_name a" "player_name b"] that
      by (auto simp: compare_players_def split: if_splits)
    with inj that show ?thesis by (auto dest: inj_onD)
  qed
qed

lemma array_sort_permuted:
  assumes "mset ps = mset qs" and "distinct (map player_name ps)"
    and "strict_collation lc (player_name ` set ps)"
  shows "array_sort (compare_players lc) ps = array_sort (compare_players lc) qs"
proof -
  let ?cmp = "compare_players lc"
  note ord = compare_players_order [OF assms(3,2)]
  have sets: "set qs = set ps" using assms(1) by (metis mset_eq_setD)
  have s1: "sorted_wrt (\<lambda>a b. ?cmp a b \<le> 0) (array_sort ?cmp ps)"
    using ord(1,2) subset_refl by (rule sorted_array_sort [where S = "set ps"])
  have sub: "set qs \<subseteq> set ps" using sets by simp
  have s2: "sorted_wrt (\<lambda>a b. ?cmp a b \<le> 0) (array_sort ?cmp qs)"
    using ord(1,2) sub by (rule sorted_array_sort [where S = "set ps"])
  have sub': "set (array_sort ?cmp ps) \<subseteq> set ps" by (simp add: set_array_sort)
  have ms: "mset (array_sort ?cmp ps) = mset (array_sort ?cmp qs)"
    using assms(1) by (simp add: mset_array_sort)
  show ?thesis
    using ord(3) sub' ms s1 s2 by (rule sorted_unique [where S = "set ps"])
qed

lemma order_balanced_random:
  "order_players lc random1 False ps = order_players lc random2 False ps"
  by (simp add: order_players_def)

lemma generate_groups_cong:
  assumes "length ps = length qs"
    and "order_players lc random1 shuffle ps = order_players lc random2 shuffle qs"
  shows "generate_groups lc random1 shuffle outing ps = generate_groups lc random2 shuffle outing qs"
  unfolding generate_groups_def assms ..

text \<open>
  Without strictness the row order shows: under a collation that calls all names equal, the
  two players of skill 5 keep the order of their rows.
\<close>

lemma balanced_order_follows_rows_on_ties:
  "generate_groups (\<lambda>a b. 0) random False three_groups three_players \<noteq>
   generate_groups (\<lambda>a b. 0) random False three_groups three_players_reordered"
  by (simp add: generate_groups_def three_groups_def three_players_def three_players_reordered_def
      order_players_def array_sort_def compare_players_def groups_array_3 make_groups_3
      assign_player_eq advance_def recalculate_def double_add_def round_double_numeral)

section \<open>The ordering step in the store\<close>

lemma array_at_Some: "arrays h a = Some xs \<Longrightarrow> array_at h a = xs"
  by (simp add: array_at_def)

lemma swap_in_place_eq:
  "swap_in_place h a i j = h\<lparr>arrays := (arrays h)(a \<mapsto> swap i j (array_at h a))\<rparr>"
  by (simp add: swap_in_place_def write_elem_def array_at_def swap_def Let_def)

lemma shuffle_in_place_eq:
  "arrays h a = Some xs \<Longrightarrow>
   shuffle_in_place random k i h a = h\<lparr>arrays := (arrays h)(a \<mapsto> fst (fisher_yates random k i xs))\<rparr>"
proof (induction i arbitrary: k h xs)
  case 0
  then have "(arrays h)(a \<mapsto> xs) = arrays h" by (simp add: fun_upd_idem)
  then show ?case by simp
next
  case (Suc i)
  let ?j = "random_index (random k) (Suc i)"
  let ?h = "swap_in_place h a (Suc i) ?j"
  have h1: "arrays ?h a = Some (swap (Suc i) ?j xs)"
    using Suc.prems by (simp add: swap_in_place_eq array_at_Some)
  have step1: "shuffle_in_place random (Suc k) i ?h a =
      ?h\<lparr>arrays := (arrays ?h)(a \<mapsto> fst (fisher_yates random (Suc k) i (swap (Suc i) ?j xs)))\<rparr>"
    using h1 by (rule Suc.IH)
  have step2: "?h\<lparr>arrays := (arrays ?h)(a \<mapsto> fst (fisher_yates random (Suc k) i (swap (Suc i) ?j xs)))\<rparr>
      = h\<lparr>arrays := (arrays h)(a \<mapsto> fst (fisher_yates random (Suc k) i (swap (Suc i) ?j xs)))\<rparr>"
    by (simp add: swap_in_place_eq)
  have lhs: "shuffle_in_place random k (Suc i) h a = shuffle_in_place random (Suc k) i ?h a"
    by (simp add: Let_def)
  have rhs: "fisher_yates random k (Suc i) xs = fisher_yates random (Suc k) i (swap (Suc i) ?j xs)"
    by (simp add: Let_def)
  show ?case
    unfolding lhs rhs using step1 step2 by (rule trans)
qed

lemma order_in_store_frame:
  assumes "store_ok h" and "arrays h a = Some ps"
  shows "\<exists>h' c. order_in_store lc random shuffle h a = (h', c)
     \<and> c \<noteq> a
     \<and> arrays h' a = Some ps
     \<and> arrays h' c = Some (order_players lc random shuffle ps)
     \<and> (\<forall>b. b \<noteq> c \<longrightarrow> arrays h' b = arrays h b)"
proof -
  let ?c = "next_addr h"
  let ?h1 = "h\<lparr>arrays := (arrays h)(?c \<mapsto> ps), next_addr := Suc ?c\<rparr>"
  have ne: "?c \<noteq> a"
    using assms by (auto simp: store_ok_def)
  have sp: "spread_copy h a = (?h1, ?c)"
    using assms(2) by (simp add: spread_copy_def array_at_Some)
  have c1: "arrays ?h1 ?c = Some ps" by simp
  show ?thesis
  proof (cases shuffle)
    case True
    have "order_in_store lc random shuffle h a =
        (shuffle_in_place random 0 (length ps - 1) ?h1 ?c, ?c)"
      using True sp by (simp add: order_in_store_def array_at_def)
    also have "shuffle_in_place random 0 (length ps - 1) ?h1 ?c =
        ?h1\<lparr>arrays := (arrays ?h1)(?c \<mapsto> fst (fisher_yates random 0 (length ps - 1) ps))\<rparr>"
      using c1 by (rule shuffle_in_place_eq)
    finally show ?thesis
      using True ne assms(2) by (simp add: order_players_def shuffle_players_def)
  next
    case False
    have "order_in_store lc random shuffle h a =
        (sort_in_place (compare_players lc) ?h1 ?c, ?c)"
      using False sp by (simp add: order_in_store_def)
    then show ?thesis
      using False ne assms(2) by (simp add: sort_in_place_def order_players_def array_at_def)
  qed
qed

lemma sample_store_ok: "store_ok sample_store"
  by (simp add: store_ok_def sample_store_def)

lemma sample_store_at: "arrays sample_store 0 = Some three_players"
  by (simp add: sample_store_def)

section \<open>The outing table\<close>

lemma isInteger_number: "isInteger v \<Longrightarrow> typeof v = ''number''"
  by (cases v rule: isInteger.cases) simp_all

lemma positive_integer_read:
  assumes "positive_integer (o_number_of_groups r)"
  shows "\<exists>out. read_outing r = Some out \<and> 1 \<le> number_of_groups out"
proof -
  from assms obtain q where v: "o_number_of_groups r = JNumber (Finite q)"
    and int: "of_int \<lfloor>q\<rfloor> = q" and ge: "\<not> q < 1"
    unfolding positive_integer_def
    by (cases "o_number_of_groups r" rule: isInteger.cases) simp_all
  from ge have "1 \<le> \<lfloor>q\<rfloor>" by (simp add: le_floor_iff)
  with v int show ?thesis by (simp add: read_outing_def)
qed

lemma post_outing_cases:
  "snd (post_outing db i nm v) = db \<or>
   (\<exists>row. snd (post_outing db i nm v) = db @ [row] \<and> positive_integer (o_number_of_groups row))"
  by (auto simp: post_outing_def Let_def positive_integer_def)

lemma put_outing_rows:
  assumes "\<forall>r \<in> set db. positive_integer (o_number_of_groups r)"
  shows "\<forall>r \<in> set (snd (put_outing db t nm v)). positive_integer (o_number_of_groups r)"
  using assms by (auto simp: put_outing_def positive_integer_def split: if_splits)

lemma delete_outing_rows:
  assumes "\<forall>r \<in> set db. positive_integer (o_number_of_groups r)"
  shows "\<forall>r \<in> set (snd (delete_outing db t)). positive_integer (o_number_of_groups r)"
  using assms by (auto simp: delete_outing_def)

lemma reachable_positive:
  "reachable db \<Longrightarrow> \<forall>r \<in> set db. positive_integer (o_number_of_groups r)"
proof (induction rule: reachable.induct)
  case empty
  then show ?case by simp
next
  case (post db new_id nm v)
  from post_outing_cases [of db new_id nm v] post.IH show ?case by auto
next
  case (put db target nm v)
  from put.IH show ?case by (rule put_outing_rows)
next
  case (delete db target)
  from delete.IH show ?case by (rule delete_outing_rows)
qed

lemma post_outing_default:
  assumes "truthy nm" "typeof nm = ''string''" "length (trim (string_of nm)) \<noteq> 0"
    and "\<not> (\<exists>r \<in> set db. o_id r = i)"
  shows "post_outing db i nm JUndefined =
     (Json 201, db @ [\<lparr>o_id = i, o_name = string_of nm, o_number_of_groups = JNumber (Finite 3)\<rparr>])"
  using assms by (simp add: post_outing_def)

lemma post_outing_rejects:
  assumes "v \<noteq> JUndefined" and "\<not> positive_integer v"
  shows "\<exists>msg. post_outing db i nm v = (Failure 400 msg, db)"
  using assms isInteger_number [of v] by (auto simp: post_outing_def positive_integer_def)

lemma put_outing_rejects:
  assumes "v \<noteq> JUndefined" and "\<not> positive_integer v"
  shows "\<exists>msg. put_outing db t nm v = (Failure 400 msg, db)"
  using assms isInteger_number [of v] by (auto simp: put_outing_def positive_integer_def)

lemma sample_outings_eq: "sample_outings = [\<lparr>o_id = ''o1'', o_name = ''Spring Open'', o_number_of_groups = JNumber (Finite 4)\<rparr>]"
  by (simp add: sample_outings_def post_outing_def put_outing_def trim_def is_space_def)

lemma sample_reach: "reachable sample_outings"
  unfolding sample_outings_def by (intro reachable.intros)

section \<open>The shuffle\<close>

lemma nth_swap:
  "i < length xs \<Longrightarrow> j < length xs \<Longrightarrow>
   swap i j xs ! k = (if k = j then xs ! i else if k = i then xs ! j else xs ! k)"
  by (auto simp: swap_def nth_list_update)

lemma distinct_swap': "i < length xs \<Longrightarrow> j < length xs \<Longrightarrow> distinct (swap i j xs) = distinct xs"
  by (simp add: swap_def)

subsection \<open>Draws and chosen positions\<close>

lemma fisher_yates_choices:
  "fisher_yates random k i xs = (shuffle_with (choices random k i) i xs, k + i)"
  by (induction i arbitrary: k xs) (simp_all add: Let_def)

lemma length_choices: "length (choices random k i) = i"
  by (induction i arbitrary: k) simp_all

lemma valid_choices_random:
  "random_ok random \<Longrightarrow> valid_choices i (choices random k i)"
  by (induction i arbitrary: k) (simp_all add: random_ok_def random_index_le)

lemma choices_cong:
  "(\<And>m. k \<le> m \<Longrightarrow> f m = g m) \<Longrightarrow> choices f k i = choices g k i"
  by (induction i arbitrary: k) simp_all

lemma is_draw_0: "is_draw 0"
  by (simp add: is_draw_def round_double_def)

lemma is_draw_half: "is_draw (1 / 2)"
  by code_simp

text \<open>
  An array has at most 4294967295 elements, so the steps of the loop are below that
  number; every admissible sequence of positions is then the one of some draws.
\<close>

lemma choices_realised:
  "valid_choices i js \<Longrightarrow> i < 4294967295 \<Longrightarrow>
   \<exists>random. random_ok random \<and> choices random k i = js"
proof (induction i arbitrary: k js)
  case 0
  have "random_ok (\<lambda>_. 0)" by (simp add: random_ok_def is_draw_0)
  with 0 show ?case by auto
next
  case (Suc i)
  from Suc.prems obtain j t where js: "js = j # t" and j: "j \<le> Suc i" and t: "valid_choices i t"
    by (cases js) auto
  have "i < 4294967295" using Suc.prems(2) by simp
  from Suc.IH [OF t this, of "Suc k"] obtain f where f: "random_ok f" "choices f (Suc k) i = t"
    by blast
  from position_has_draw [OF j Suc.prems(2)]
  obtain r where r: "is_draw r" "random_index r (Suc i) = j" by blast
  let ?g = "f(k := r)"
  have ok: "random_ok ?g"
    using f(1) r(1) by (simp add: random_ok_def)
  have "choices ?g (Suc k) i = choices f (Suc k) i"
    by (rule choices_cong) simp
  then have "choices ?g k (Suc i) = js"
    using r(2) f(2) js by simp
  with ok show ?case by blast
qed

subsection \<open>Chosen positions and permutations\<close>

lemma shuffle_with_props:
  "valid_choices i js \<Longrightarrow> i < length xs \<Longrightarrow>
   length (shuffle_with js i xs) = length xs
   \<and> mset (shuffle_with js i xs) = mset xs
   \<and> (\<forall>k. i < k \<longrightarrow> shuffle_with js i xs ! k = xs ! k)"
proof (induction i arbitrary: js xs)
  case 0
  then show ?case by simp
next
  case (Suc i)
  from Suc.prems obtain j t where js: "js = j # t" and j: "j \<le> Suc i" and t: "valid_choices i t"
    by (cases js) auto
  let ?zs = "swap (Suc i) j xs"
  have jl: "j < length xs" using j Suc.prems(2) by simp
  have len: "i < length ?zs" using Suc.prems(2) by simp
  from Suc.IH [OF t len]
  have ih: "length (shuffle_with t i ?zs) = length ?zs" "mset (shuffle_with t i ?zs) = mset ?zs"
    "\<And>k. i < k \<Longrightarrow> shuffle_with t i ?zs ! k = ?zs ! k"
    by simp_all
  have "shuffle_with js (Suc i) xs ! k = xs ! k" if "Suc i < k" for k
  proof -
    have "shuffle_with t i ?zs ! k = ?zs ! k" using that by (simp add: ih(3))
    also have "\<dots> = xs ! k" using that j Suc.prems(2) jl by (simp add: nth_swap)
    finally show ?thesis by (simp add: js)
  qed
  then show ?case
    using ih(1,2) Suc.prems(2) jl by (simp add: js mset_swap')
qed

lemma shuffle_with_last:
  assumes "j \<le> Suc i" and "valid_choices i t" and "Suc i < length xs"
  shows "shuffle_with (j # t) (Suc i) xs ! Suc i = xs ! j"
proof -
  have "i < length (swap (Suc i) j xs)" using assms(3) by simp
  from shuffle_with_props [OF assms(2) this]
  have "shuffle_with t i (swap (Suc i) j xs) ! Suc i = swap (Suc i) j xs ! Suc i"
    by simp
  also have "\<dots> = xs ! j" using assms by (simp add: nth_swap)
  finally show ?thesis by simp
qed

lemma shuffle_with_inj:
  "distinct xs \<Longrightarrow> i < length xs \<Longrightarrow> valid_choices i js \<Longrightarrow> valid_choices i js' \<Longrightarrow>
   shuffle_with js i xs = shuffle_with js' i xs \<Longrightarrow> js = js'"
proof (induction i arbitrary: js js' xs)
  case 0
  then show ?case by simp
next
  case (Suc i)
  from Suc.prems(3) obtain j t where js: "js = j # t" and j: "j \<le> Suc i" and t: "valid_choices i t"
    by (cases js) auto
  from Suc.prems(4) obtain j' t' where js': "js' = j' # t'" and j': "j' \<le> Suc i"
    and t': "valid_choices i t'"
    by (cases js') auto
  have "xs ! j = xs ! j'"
    using shuffle_with_last [OF j t Suc.prems(2)] shuffle_with_last [OF j' t' Suc.prems(2)]
      Suc.prems(5) by (simp add: js js')
  then have jj: "j = j'"
    using Suc.prems(1,2) j j' by (simp add: nth_eq_iff_index_eq)
  let ?zs = "swap (Suc i) j xs"
  have d: "distinct ?zs" using Suc.prems(1,2) j by (simp add: distinct_swap')
  have l: "i < length ?zs" using Suc.prems(2) by simp
  have e: "shuffle_with t i ?zs = shuffle_with t' i ?zs"
    using Suc.prems(5) by (simp add: js js' jj)
  have "t = t'" using d l t t' e by (rule Suc.IH)
  with jj js js' show ?case by simp
qed

lemma mset_take_agree:
  assumes "mset ys = mset xs" and "\<And>k. n \<le> k \<Longrightarrow> k < length xs \<Longrightarrow> ys ! k = xs ! k"
  shows "mset (take n ys) = mset (take n xs)"
proof -
  have len: "length ys = length xs" using assms(1) by (rule mset_eq_length)
  have "drop n ys = drop n xs"
    by (rule nth_equalityI) (use len assms(2) in \<open>simp_all add: add.commute\<close>)
  moreover have "mset (take n ys) + mset (drop n ys) = mset (take n xs) + mset (drop n xs)"
    using assms(1) by (simp add: union_code)
  ultimately show ?thesis by simp
qed

lemma shuffle_with_surj:
  "i < length xs \<Longrightarrow> mset ys = mset xs \<Longrightarrow> (\<And>k. i < k \<Longrightarrow> k < length xs \<Longrightarrow> ys ! k = xs ! k) \<Longrightarrow>
   \<exists>js. valid_choices i js \<and> shuffle_with js i xs = ys"
proof (induction i arbitrary: xs)
  case 0
  have len: "length ys = length xs" using 0(2) by (rule mset_eq_length)
  have "mset (take 1 ys) = mset (take 1 xs)"
    using 0(2) by (rule mset_take_agree) (use 0(3) in simp)
  then have "ys ! 0 = xs ! 0"
    using 0(1) len by (cases xs; cases ys) simp_all
  then have "ys = xs"
    using len 0(3) by (intro nth_equalityI) (simp, case_tac i, simp_all)
  then show ?case by simp
next
  case (Suc i)
  have len: "length ys = length xs" using Suc.prems(2) by (rule mset_eq_length)
  have tk: "mset (take (Suc (Suc i)) ys) = mset (take (Suc (Suc i)) xs)"
    using Suc.prems(2) by (rule mset_take_agree) (use Suc.prems(3) in simp)
  have "ys ! Suc i \<in> set (take (Suc (Suc i)) ys)"
    using Suc.prems(1) len by (simp add: in_set_conv_nth) (metis lessI nth_take)
  then have "ys ! Suc i \<in> set (take (Suc (Suc i)) xs)"
    using tk by (metis mset_eq_setD)
  then obtain j where j: "j < Suc (Suc i)" "j < length xs" "xs ! j = ys ! Suc i"
    by (auto simp: in_set_conv_nth)
  let ?zs = "swap (Suc i) j xs"
  have a: "i < length ?zs" using Suc.prems(1) by simp
  have b: "mset ys = mset ?zs"
    using Suc.prems(1,2) j(2) by (simp add: mset_swap')
  have c: "ys ! k = ?zs ! k" if "i < k" "k < length ?zs" for k
  proof (cases "k = Suc i")
    case True
    then show ?thesis using j Suc.prems(1) by (simp add: nth_swap)
  next
    case False
    with that have "Suc i < k" by simp
    then show ?thesis using that j Suc.prems(1,3) by (simp add: nth_swap)
  qed
  from Suc.IH [OF a b c] obtain t where t: "valid_choices i t" "shuffle_with t i ?zs = ys"
    by auto
  have "valid_choices (Suc i) (j # t)" using j(1) t(1) by simp
  moreover have "shuffle_with (j # t) (Suc i) xs = ys" using t(2) by simp
  ultimately show ?case by blast
qed

lemma shuffle_with_bij:
  assumes "distinct xs" and "xs \<noteq> []"
  shows "bij_betw (\<lambda>js. shuffle_with js (length xs - 1) xs)
           {js. valid_choices (length xs - 1) js} {ys. mset ys = mset xs}"
proof (rule bij_betw_imageI)
  let ?i = "length xs - 1"
  have i: "?i < length xs" using assms(2) by (cases xs) simp_all
  show "inj_on (\<lambda>js. shuffle_with js ?i xs) {js. valid_choices ?i js}"
    by (rule inj_onI) (use shuffle_with_inj [OF assms(1) i] in blast)
  show "(\<lambda>js. shuffle_with js ?i xs) ` {js. valid_choices ?i js} = {ys. mset ys = mset xs}"
  proof (intro set_eqI iffI)
    fix ys assume "ys \<in> (\<lambda>js. shuffle_with js ?i xs) ` {js. valid_choices ?i js}"
    then show "ys \<in> {ys. mset ys = mset xs}"
      using shuffle_with_props [OF _ i] by auto
  next
    fix ys assume "ys \<in> {ys. mset ys = mset xs}"
    then have m: "mset ys = mset xs" by simp
    have "\<exists>js. valid_choices ?i js \<and> shuffle_with js ?i xs = ys"
      using i m by (rule shuffle_with_surj) simp
    then show "ys \<in> (\<lambda>js. shuffle_with js ?i xs) ` {js. valid_choices ?i js}"
      by auto
  qed
qed

lemma valid_choices_Suc:
  "{js. valid_choices (Suc i) js} = (\<lambda>(j, t). j # t) ` ({..Suc i} \<times> {js. valid_choices i js})"
proof (intro set_eqI iffI)
  fix js assume "js \<in> {js. valid_choices (Suc i) js}"
  then show "js \<in> (\<lambda>(j, t). j # t) ` ({..Suc i} \<times> {js. valid_choices i js})"
    by (cases js) auto
next
  fix js assume "js \<in> (\<lambda>(j, t). j # t) ` ({..Suc i} \<times> {js. valid_choices i js})"
  then show "js \<in> {js. valid_choices (Suc i) js}" by auto
qed

lemma card_valid_choices:
  "finite {js. valid_choices i js} \<and> card {js. valid_choices i js} = fact (Suc i)"
proof (induction i)
  case 0
  have "{js. valid_choices 0 js} = {[]}" by auto
  then show ?case by simp
next
  case (Suc i)
  have inj: "inj_on (\<lambda>(j, t). j # t) ({..Suc i} \<times> {js. valid_choices i js})"
    by (auto simp: inj_on_def)
  have fin: "finite {js. valid_choices (Suc i) js}"
    unfolding valid_choices_Suc using Suc.IH by simp
  have "card {js. valid_choices (Suc i) js} = card ({..Suc i} \<times> {js. valid_choices i js})"
    unfolding valid_choices_Suc using inj by (rule card_image)
  also have "\<dots> = Suc (Suc i) * fact (Suc i)"
    using Suc.IH by (simp add: card_cartesian_product)
  also have "\<dots> = fact (Suc (Suc i))" by simp
  finally show ?case using fin by simp
qed

lemma shuffle_reaches:
  assumes "mset ys = mset xs" and "length xs \<le> 4294967295"
  shows "\<exists>random. random_ok random \<and> fst (shuffle_players random xs) = ys"
proof (cases xs)
  case Nil
  have "random_ok (\<lambda>_. 0)" by (simp add: random_ok_def is_draw_0)
  with Nil assms show ?thesis by (auto simp: shuffle_players_def)
next
  case (Cons x xs')
  let ?i = "length xs - 1"
  have i: "?i < length xs" using Cons by simp
  have b: "?i < 4294967295" using i assms(2) by simp
  have "\<exists>js. valid_choices ?i js \<and> shuffle_with js ?i xs = ys"
    using i assms(1) by (rule shuffle_with_surj) simp
  then obtain js where js: "valid_choices ?i js" "shuffle_with js ?i xs = ys" by blast
  from choices_realised [OF js(1) b, of 0] obtain random
    where r: "random_ok random" "choices random 0 ?i = js" by blast
  have "fst (shuffle_players random xs) = ys"
    using r(2) js(2) by (simp add: shuffle_players_def fisher_yates_choices)
  with r(1) show ?thesis by blast
qed

subsection \<open>Draws on a grid\<close>

text \<open>
  With draws spread evenly over the doubles \<open>m / 2 ^ b\<close>, \<open>m < 2 ^ b\<close>, for a number of
  bits \<open>b\<close> up to 53, the three positions of the step \<open>i = 2\<close> cannot be chosen by
  equally many draws: three does not divide a power of two.
\<close>

lemma grid_draw:
  assumes "m < 2 ^ b" and "b \<le> 53"
  shows "is_draw (of_nat m / 2 ^ b)"
proof -
  have e: "(of_nat m / 2 ^ b :: rat) = of_int (int m) * pow2 (- int b)"
    by (cases "b = 0") (simp_all add: pow2_def)
  have "int m < int (2 ^ b)" using assms(1) by (simp only: of_nat_less_iff)
  then have "int m < 2 ^ b" by simp
  also have "(2::int) ^ b \<le> 2 ^ 53" using assms(2) by (intro power_increasing) simp_all
  finally have "\<bar>int m\<bar> < 2 ^ 53" by simp
  moreover have "- 1074 \<le> - int b" using assms(2) by simp
  ultimately have rd: "round_double (of_int (int m) * pow2 (- int b)) = of_int (int m) * pow2 (- int b)"
    by (rule round_double_representable)
  have "(of_nat m :: rat) < of_nat (2 ^ b)" using assms(1) by (simp only: of_nat_less_iff)
  then have "(of_nat m :: rat) < 2 ^ b" by simp
  then have lt: "(of_nat m / 2 ^ b :: rat) < 1" by simp
  have "0 \<le> (of_nat m / 2 ^ b :: rat)" by simp
  with lt rd show ?thesis unfolding is_draw_def e [symmetric] by simp
qed

lemma three_positions_unequal:
  assumes "b \<le> 53"
  shows "\<not> (card (draws_choosing b 2 0) = card (draws_choosing b 2 1)
            \<and> card (draws_choosing b 2 1) = card (draws_choosing b 2 2))"
proof
  assume eq: "card (draws_choosing b 2 0) = card (draws_choosing b 2 1)
            \<and> card (draws_choosing b 2 1) = card (draws_choosing b 2 2)"
  have fin: "finite (draws_choosing b 2 j)" for j
    by (simp add: draws_choosing_def)
  have le: "random_index (of_nat m / 2 ^ b) 2 \<le> 2" if "m < 2 ^ b" for m
    using grid_draw [OF that assms] by (rule random_index_le)
  have un: "draws_choosing b 2 0 \<union> draws_choosing b 2 1 \<union> draws_choosing b 2 2 = {..<2 ^ b}"
  proof (rule set_eqI)
    fix m
    show "m \<in> draws_choosing b 2 0 \<union> draws_choosing b 2 1 \<union> draws_choosing b 2 2
        \<longleftrightarrow> m \<in> {..<2 ^ b}"
      using le [of m] by (auto simp: draws_choosing_def)
  qed
  have d1: "draws_choosing b 2 0 \<inter> draws_choosing b 2 1 = {}"
    and d2: "(draws_choosing b 2 0 \<union> draws_choosing b 2 1) \<inter> draws_choosing b 2 2 = {}"
    by (auto simp: draws_choosing_def)
  have "card {..<(2::nat) ^ b} =
      card (draws_choosing b 2 0 \<union> draws_choosing b 2 1) + card (draws_choosing b 2 2)"
    unfolding un [symmetric] using fin d2 by (intro card_Un_disjoint) simp_all
  also have "card (draws_choosing b 2 0 \<union> draws_choosing b 2 1) =
      card (draws_choosing b 2 0) + card (draws_choosing b 2 1)"
    using fin d1 by (intro card_Un_disjoint) simp_all
  finally have "(2::nat) ^ b = 3 * card (draws_choosing b 2 0)"
    using eq by simp
  then have dv: "(3::nat) dvd 2 ^ b" by simp
  have cp: "coprime (3::nat) (2 ^ b)"
    by (rule coprime_power_right_iff [THEN iffD2]) simp
  from coprime_common_divisor [OF cp dvd_refl dv] show False by simp
qed

section \<open>Results on group generation\<close>

lemma random_ok_half: "random_ok half"
  by (simp add: random_ok_def half_def is_draw_half)

text \<open>
  Claim C2, amended. For every group count from 1 to 4294967295, every non-empty sequence of
  players and both modes (the draws of the shuffle being doubles in \<open>[0, 1)\<close>), the
  handler answers with the groups, and the concatenation of the groups' player lists holds
  every input player as often as the input does: none is duplicated, none is omitted.
\<close>

theorem partition_property:
  assumes "1 \<le> number_of_groups outing" and "number_of_groups outing \<le> 4294967295"
    and "ps \<noteq> []" and "shuffle \<longrightarrow> random_ok random"
  shows "\<exists>gs. generate_groups lc random shuffle outing ps =
              Json_Groups (outing_name outing) (number_of_groups outing) gs
     \<and> mset (concat (map players gs)) = mset ps
     \<and> (\<forall>p. count_list (concat (map players gs)) p = count_list ps p)
     \<and> (distinct ps \<longrightarrow> distinct (concat (map players gs)) \<and> set (concat (map players gs)) = set ps)"
proof -
  from generate_groups_result [OF assms, of lc]
  obtain gs where g: "generate_groups lc random shuffle outing ps =
              Json_Groups (outing_name outing) (number_of_groups outing) gs"
    and ms: "mset (concat (map players gs)) = mset ps"
    by blast
  have cnt: "\<forall>p. count_list (concat (map players gs)) p = count_list ps p"
    using ms by (metis count_mset)
  have dst: "distinct ps \<longrightarrow> distinct (concat (map players gs)) \<and> set (concat (map players gs)) = set ps"
    using ms by (metis mset_eq_imp_distinct_iff mset_eq_setD)
  from g ms cnt dst show ?thesis by blast
qed

theorem partition_property_witness:
  "1 \<le> number_of_groups three_groups \<and> number_of_groups three_groups \<le> 4294967295
   \<and> three_players \<noteq> [] \<and> random_ok half
   \<and> (\<exists>gs. generate_groups code_unit_compare half True three_groups three_players =
              Json_Groups (outing_name three_groups) (number_of_groups three_groups) gs
        \<and> mset (concat (map players gs)) = mset three_players)
   \<and> (\<exists>gs. generate_groups code_unit_compare half False three_groups three_players =
              Json_Groups (outing_name three_groups) (number_of_groups three_groups) gs
        \<and> mset (concat (map players gs)) = mset three_players)"
proof -
  have h1: "1 \<le> number_of_groups three_groups" by (simp add: three_groups_def)
  have h2: "number_of_groups three_groups \<le> 4294967295" by (simp add: three_groups_def)
  have h3: "three_players \<noteq> []" by (simp add: three_players_def)
  have h4: "True \<longrightarrow> random_ok half" by (simp add: random_ok_half)
  have h5: "False \<longrightarrow> random_ok half" by simp
  from partition_property [OF h1 h2 h3 h4, of code_unit_compare]
    partition_property [OF h1 h2 h3 h5, of code_unit_compare] h1 h2 h3 random_ok_half
  show ?thesis by blast
qed

text \<open>
  The upper bound on the count is needed. The creation of an outing accepts and stores the
  count 4294967296; for it the construction of the array of groups throws, and the handler
  answers with status 500 in both modes.
\<close>

theorem partition_fails_beyond_array_length:
  "post_outing [] ''o1'' (JString ''Big'') (JNumber (Finite 4294967296)) =
     (Json 201, [\<lparr>o_id = ''o1'', o_name = ''Big'',
                  o_number_of_groups = JNumber (Finite 4294967296)\<rparr>])
   \<and> read_outing \<lparr>o_id = ''o1'', o_name = ''Big'',
                   o_number_of_groups = JNumber (Finite 4294967296)\<rparr> = Some big_outing
   \<and> 1 \<le> number_of_groups big_outing \<and> three_players \<noteq> [] \<and> random_ok half
   \<and> generate_groups code_unit_compare half True big_outing three_players =
       Error 500 ''Failed to generate groups''
   \<and> generate_groups code_unit_compare half False big_outing three_players =
       Error 500 ''Failed to generate groups''"
proof -
  have a: "post_outing [] ''o1'' (JString ''Big'') (JNumber (Finite 4294967296)) =
     (Json 201, [\<lparr>o_id = ''o1'', o_name = ''Big'',
                  o_number_of_groups = JNumber (Finite 4294967296)\<rparr>])"
    by code_simp
  have b: "read_outing \<lparr>o_id = ''o1'', o_name = ''Big'',
                   o_number_of_groups = JNumber (Finite 4294967296)\<rparr> = Some big_outing"
    by code_simp
  have c: "1 \<le> number_of_groups big_outing" "three_players \<noteq> []"
    by (simp_all add: big_outing_def three_players_def)
  have d: "generate_groups code_unit_compare half True big_outing three_players =
       Error 500 ''Failed to generate groups''"
    by code_simp
  have e: "generate_groups code_unit_compare half False big_outing three_players =
       Error 500 ''Failed to generate groups''"
    by code_simp
  from a b c random_ok_half d e show ?thesis by (intro conjI)
qed

text \<open>
  Claim C3, amended. In balanced mode the result does not depend on the draws, and for two
  row orders of the same set of players it is the same response (same group names, same
  members in the same order, same totals), provided the names are pairwise different, as the
  table of players requires, and the collation orders them linearly and calls no two of
  them equal.
\<close>

theorem balanced_deterministic:
  "generate_groups lc random1 False outing ps = generate_groups lc random2 False outing ps
   \<and> (mset ps = mset qs \<longrightarrow> distinct (map player_name ps) \<longrightarrow>
        strict_collation lc (player_name ` set ps) \<longrightarrow>
        generate_groups lc random1 False outing ps = generate_groups lc random2 False outing qs)"
proof -
  have a: "generate_groups lc random1 False outing ps = generate_groups lc random2 False outing ps"
    by (rule generate_groups_cong) (simp_all add: order_players_def)
  have b: "generate_groups lc random1 False outing ps = generate_groups lc random2 False outing qs"
    if "mset ps = mset qs" "distinct (map player_name ps)" "strict_collation lc (player_name ` set ps)"
  proof (rule generate_groups_cong)
    show "length ps = length qs" using that(1) by (rule mset_eq_length)
    show "order_players lc random1 False ps = order_players lc random2 False qs"
      using array_sort_permuted [OF that] by (simp add: order_players_def)
  qed
  from a b show ?thesis by blast
qed

theorem balanced_deterministic_witness:
  "mset three_players = mset three_players_reordered
   \<and> distinct (map player_name three_players)
   \<and> strict_collation code_unit_compare (player_name ` set three_players)
   \<and> generate_groups code_unit_compare half False three_groups three_players =
       generate_groups code_unit_compare (\<lambda>k. 0) False three_groups three_players_reordered"
proof -
  have h1: "mset three_players = mset three_players_reordered"
    by (simp add: three_players_def three_players_reordered_def)
  have h2: "distinct (map player_name three_players)"
    by (simp add: three_players_def)
  have h3: "strict_collation code_unit_compare (player_name ` set three_players)"
    by (simp add: three_players_def strict_collation_def)
  from balanced_deterministic [of code_unit_compare half three_groups three_players "\<lambda>k. 0"
      three_players_reordered] h1 h2 h3
  show ?thesis by blast
qed

text \<open>
  The condition on the collation is needed. Take two players of equal skill whose names
  differ by a soft hyphen, which the collation passes over. The table accepts both names;
  the sort, being stable, leaves the two in the order of their rows, which the query does
  not fix, and the two row orders give different groups.
\<close>

theorem balanced_depends_on_row_order:
  "fst (post_player [] ''a'' (JString ''Ann'') (JNumber (Finite 5))) = Json 201
   \<and> fst (post_player (snd (post_player [] ''a'' (JString ''Ann'') (JNumber (Finite 5))))
            ''b'' (JString (''An'' @ [CHR 0xAD] @ ''n'')) (JNumber (Finite 5))) = Json 201
   \<and> mset hyphen_players = mset hyphen_players_reordered
   \<and> distinct (map player_name hyphen_players)
   \<and> soft_hyphen_collation ''Ann'' (''An'' @ [CHR 0xAD] @ ''n'') = 0
   \<and> generate_groups soft_hyphen_collation half False three_groups hyphen_players \<noteq>
       generate_groups soft_hyphen_collation half False three_groups hyphen_players_reordered"
proof -
  have a: "fst (post_player [] ''a'' (JString ''Ann'') (JNumber (Finite 5))) = Json 201"
    by code_simp
  have b: "fst (post_player (snd (post_player [] ''a'' (JString ''Ann'') (JNumber (Finite 5))))
            ''b'' (JString (''An'' @ [CHR 0xAD] @ ''n'')) (JNumber (Finite 5))) = Json 201"
    by code_simp
  have c: "mset hyphen_players = mset hyphen_players_reordered"
    by (simp add: hyphen_players_def hyphen_players_reordered_def)
  have d: "distinct (map player_name hyphen_players)"
    by (simp add: hyphen_players_def)
  have e: "soft_hyphen_collation ''Ann'' (''An'' @ [CHR 0xAD] @ ''n'') = 0"
    by code_simp
  have f: "generate_groups soft_hyphen_collation half False three_groups hyphen_players \<noteq>
       generate_groups soft_hyphen_collation half False three_groups hyphen_players_reordered"
    by code_simp
  from a b c d e f show ?thesis by (intro conjI)
qed

text \<open>
  Claim C5. With no member players the handler answers successfully, for every group count
  and in both modes, with an empty list of groups and an explanatory message.
\<close>

theorem empty_outing:
  "generate_groups lc random shuffle outing [] =
     Json_Empty (outing_name outing) [] ''No players in this outing to form groups.''"
  by (simp add: generate_groups_def)

theorem empty_outing_witness:
  "generate_groups code_unit_compare half True three_groups [] =
     Json_Empty ''Spring Open'' [] ''No players in this outing to form groups.''
   \<and> generate_groups code_unit_compare half False three_groups [] =
     Json_Empty ''Spring Open'' [] ''No players in this outing to form groups.''"
  using empty_outing [of code_unit_compare half True three_groups]
    empty_outing [of code_unit_compare half False three_groups]
  by (simp add: three_groups_def)

lemma length_names: "length GOLF_GROUP_NAMES = 26"
  by (simp add: GOLF_GROUP_NAMES_def)

lemma group_name_eq:
  "group_name i = GOLF_GROUP_NAMES ! (i mod 26) @
     (if 26 \<le> i then '' ('' @ number_to_string (i div 26 + 1) @ '')'' else '''')"
proof -
  have "(0 < i div 26) = (26 \<le> i)" by (simp add: div_greater_zero_iff)
  then show ?thesis by (simp add: group_name_def length_names)
qed

lemma names_52: "distinct (map group_name [0..<52])"
  by code_simp

lemma names_upto_52:
  assumes "n \<le> 52"
  shows "distinct (map group_name [0..<n])"
proof -
  have "map group_name [0..<n] = take n (map group_name [0..<52])"
    using assms by (simp add: take_map take_upt)
  then show ?thesis using names_52 by (simp only: distinct_take)
qed

text \<open>
  Claim C6. The catalogue has 26 names. Group \<open>i\<close> is named by catalogue entry
  \<open>i mod 26\<close>, followed by a space and \<open>(i div 26) + 1\<close> in parentheses exactly when
  \<open>i \<ge> 26\<close>. For every group count up to 52 the names of the groups made, and so the
  names in the handler's answer, are pairwise distinct.
\<close>

theorem group_naming:
  "length GOLF_GROUP_NAMES = 26
   \<and> length (make_groups n) = nat n
   \<and> (i < nat n \<longrightarrow>
        name (make_groups n ! i) = GOLF_GROUP_NAMES ! (i mod 26) @
          (if 26 \<le> i then '' ('' @ number_to_string (i div 26 + 1) @ '')'' else ''''))
   \<and> (n \<le> 52 \<longrightarrow> distinct (map name (make_groups n)))
   \<and> (1 \<le> number_of_groups outing \<and> number_of_groups outing \<le> 52 \<and> ps \<noteq> []
        \<and> (shuffle \<longrightarrow> random_ok random) \<longrightarrow>
        (\<exists>gs. generate_groups lc random shuffle outing ps =
                Json_Groups (outing_name outing) (number_of_groups outing) gs
           \<and> distinct (map name gs)))"
proof -
  have a: "i < nat n \<longrightarrow>
        name (make_groups n ! i) = GOLF_GROUP_NAMES ! (i mod 26) @
          (if 26 \<le> i then '' ('' @ number_to_string (i div 26 + 1) @ '')'' else '''')"
    by (simp add: make_groups_def group_name_eq)
  have b: "distinct (map name (make_groups n))" if "n \<le> 52"
  proof -
    have "nat n \<le> 52" using that by simp
    then show ?thesis
      by (simp only: make_groups_props names_upto_52)
  qed
  have c: "\<exists>gs. generate_groups lc random shuffle outing ps =
                Json_Groups (outing_name outing) (number_of_groups outing) gs
           \<and> distinct (map name gs)"
    if h: "1 \<le> number_of_groups outing" "number_of_groups outing \<le> 52" "ps \<noteq> []"
      "shuffle \<longrightarrow> random_ok random"
  proof -
    have "number_of_groups outing \<le> 4294967295" using h(2) by simp
    from generate_groups_result [OF h(1) this h(3,4), of lc]
    obtain gs where g: "generate_groups lc random shuffle outing ps =
                Json_Groups (outing_name outing) (number_of_groups outing) gs"
      and nm: "map name gs = map group_name [0..<nat (number_of_groups outing)]"
      by blast
    have "nat (number_of_groups outing) \<le> 52" using h(2) by simp
    then have "distinct (map name gs)" unfolding nm by (rule names_upto_52)
    with g show ?thesis by blast
  qed
  from a b c show ?thesis
    by (simp add: length_names make_groups_props)
qed

theorem group_naming_witness:
  "name (make_groups 52 ! 30) = ''The Bunker Busters (2)''
   \<and> name (make_groups 52 ! 4) = ''The Bunker Busters''
   \<and> distinct (map name (make_groups 52))"
proof -
  have e1: "GOLF_GROUP_NAMES ! (30 mod 26) = ''The Bunker Busters''"
    by (simp add: GOLF_GROUP_NAMES_def)
  have e2: "number_to_string (30 div 26 + 1) = ''2''"
    by (simp add: number_to_string.simps)
  have e3: "GOLF_GROUP_NAMES ! (4 mod 26) = ''The Bunker Busters''"
    by (simp add: GOLF_GROUP_NAMES_def)
  from group_naming [of 52 30] group_naming [of 52 4] e1 e2 e3
  show ?thesis by simp
qed

text \<open>
  Claim C7, amended. The shuffle is the Fisher--Yates loop: the step for position \<open>i\<close>,
  from \<open>n - 1\<close> down to 1, consumes one draw \<open>r\<close> and swaps position \<open>i\<close> with the
  position that is the floor of the double product of \<open>r\<close> and \<open>i + 1\<close>. That position
  lies in \<open>[0, i]\<close>; it is \<open>\<lfloor>r (i + 1)\<rfloor>\<close> or the next one; and every position of
  \<open>[0, i]\<close> is chosen by some draw. A run makes \<open>n - 1\<close> draws. For an array (at most
  4294967295 elements) every admissible sequence of positions comes from some draws and
  every permutation of the players is the result for some draws; for pairwise different
  players the admissible sequences of positions, \<open>n!\<close> in number, correspond one to one to
  the permutations.
\<close>

theorem fisher_yates_shuffle:
  "fisher_yates random k (Suc i) xs =
     fisher_yates random (Suc k) i (swap (Suc i) (random_index (random k) (Suc i)) xs)
   \<and> (is_draw r \<longrightarrow> random_index r i \<le> i)
   \<and> (is_draw r \<and> i < 4294967295 \<longrightarrow>
        nat \<lfloor>r * (of_nat i + 1)\<rfloor> \<le> random_index r i
        \<and> random_index r i \<le> nat \<lfloor>r * (of_nat i + 1)\<rfloor> + 1)
   \<and> (j \<le> i \<and> i < 4294967295 \<longrightarrow> (\<exists>r'. is_draw r' \<and> random_index r' i = j))
   \<and> snd (shuffle_players random xs) = length xs - 1
   \<and> fst (shuffle_players random xs) =
        shuffle_with (choices random 0 (length xs - 1)) (length xs - 1) xs
   \<and> (random_ok random \<longrightarrow> valid_choices (length xs - 1) (choices random 0 (length xs - 1)))
   \<and> (valid_choices (length xs - 1) js \<and> length xs \<le> 4294967295 \<longrightarrow>
        (\<exists>random'. random_ok random' \<and> choices random' 0 (length xs - 1) = js))
   \<and> (mset ys = mset xs \<and> length xs \<le> 4294967295 \<longrightarrow>
        (\<exists>random'. random_ok random' \<and> fst (shuffle_players random' xs) = ys))
   \<and> (distinct xs \<and> xs \<noteq> [] \<longrightarrow>
        bij_betw (\<lambda>js. shuffle_with js (length xs - 1) xs)
          {js. valid_choices (length xs - 1) js} {ys. mset ys = mset xs}
        \<and> card {js. valid_choices (length xs - 1) js} = fact (length xs))"
proof -
  have step: "fisher_yates random k (Suc i) xs =
     fisher_yates random (Suc k) i (swap (Suc i) (random_index (random k) (Suc i)) xs)"
    by (simp add: Let_def)
  have range: "is_draw r \<longrightarrow> random_index r i \<le> i"
    by (simp add: random_index_le)
  have near: "is_draw r \<and> i < 4294967295 \<longrightarrow>
        nat \<lfloor>r * (of_nat i + 1)\<rfloor> \<le> random_index r i
        \<and> random_index r i \<le> nat \<lfloor>r * (of_nat i + 1)\<rfloor> + 1"
    using random_index_near_exact [of r i] by blast
  have every: "j \<le> i \<and> i < 4294967295 \<longrightarrow> (\<exists>r'. is_draw r' \<and> random_index r' i = j)"
    using position_has_draw [of j i] by blast
  have draws: "snd (shuffle_players random xs) = length xs - 1"
    by (simp add: shuffle_players_def fisher_yates_choices)
  have result: "fst (shuffle_players random xs) =
        shuffle_with (choices random 0 (length xs - 1)) (length xs - 1) xs"
    by (simp add: shuffle_players_def fisher_yates_choices)
  have valid: "random_ok random \<longrightarrow> valid_choices (length xs - 1) (choices random 0 (length xs - 1))"
    by (simp add: valid_choices_random)
  have realised: "valid_choices (length xs - 1) js \<and> length xs \<le> 4294967295 \<longrightarrow>
        (\<exists>random'. random_ok random' \<and> choices random' 0 (length xs - 1) = js)"
  proof (intro impI, elim conjE)
    assume v: "valid_choices (length xs - 1) js" and l: "length xs \<le> 4294967295"
    show "\<exists>random'. random_ok random' \<and> choices random' 0 (length xs - 1) = js"
    proof (cases xs)
      case Nil
      have "random_ok (\<lambda>_. 0)" by (simp add: random_ok_def is_draw_0)
      with Nil v show ?thesis by auto
    next
      case (Cons x xs')
      then have "length xs - 1 < 4294967295" using l by simp
      with v show ?thesis by (rule choices_realised)
    qed
  qed
  have reach: "mset ys = mset xs \<and> length xs \<le> 4294967295 \<longrightarrow>
        (\<exists>random'. random_ok random' \<and> fst (shuffle_players random' xs) = ys)"
    using shuffle_reaches [of ys xs] by blast
  have count: "distinct xs \<and> xs \<noteq> [] \<longrightarrow>
        bij_betw (\<lambda>js. shuffle_with js (length xs - 1) xs)
          {js. valid_choices (length xs - 1) js} {ys. mset ys = mset xs}
        \<and> card {js. valid_choices (length xs - 1) js} = fact (length xs)"
  proof (intro impI, elim conjE)
    assume d: "distinct xs" and ne: "xs \<noteq> []"
    have "Suc (length xs - 1) = length xs" using ne by (cases xs) simp_all
    then have "card {js. valid_choices (length xs - 1) js} = fact (length xs)"
      using card_valid_choices [of "length xs - 1"] by simp
    with shuffle_with_bij [OF d ne]
    show "bij_betw (\<lambda>js. shuffle_with js (length xs - 1) xs)
          {js. valid_choices (length xs - 1) js} {ys. mset ys = mset xs}
        \<and> card {js. valid_choices (length xs - 1) js} = fact (length xs)"
      by blast
  qed
  from step range near every draws result valid realised reach count show ?thesis
    by (intro conjI)
qed

theorem fisher_yates_shuffle_witness:
  "random_ok half \<and> is_draw (1 / 2)
   \<and> random_index (1 / 2) 1 \<le> 1
   \<and> (\<exists>r'. is_draw r' \<and> random_index r' 1 = 1)
   \<and> snd (shuffle_players half three_players) = 2
   \<and> choices half 0 2 = [1, 1]
   \<and> valid_choices 2 (choices half 0 2)
   \<and> fst (shuffle_players half three_players) =
       [three_players ! 0, three_players ! 2, three_players ! 1]
   \<and> (\<exists>random'. random_ok random' \<and> choices random' 0 2 = [2, 0])
   \<and> (\<exists>random'. random_ok random' \<and> fst (shuffle_players random' three_players) = three_players_reordered)
   \<and> bij_betw (\<lambda>js. shuffle_with js 2 three_players)
        {js. valid_choices 2 js} {ys. mset ys = mset three_players}
   \<and> card {js. valid_choices 2 js} = 6"
proof -
  have len: "length three_players = 3" "(3::nat) - 1 = 2"
    by (simp_all add: three_players_def)
  have h2: "mset three_players_reordered = mset three_players"
    by (simp add: three_players_def three_players_reordered_def)
  have h3: "distinct three_players \<and> three_players \<noteq> []"
    by (simp add: three_players_def)
  have h4: "valid_choices 2 [2, 0]"
    by (simp add: numeral_2_eq_2)
  have c: "choices half 0 2 = [1, 1]"
    by code_simp
  have s: "shuffle_with [1, 1] 2 three_players = [three_players ! 0, three_players ! 2, three_players ! 1]"
    by (simp add: three_players_def numeral_2_eq_2 swap_def)
  have f: "fact (3::nat) = (6::nat)" by (simp add: fact_numeral)
  note inst = fisher_yates_shuffle [where random = half and k = 0 and i = 1 and xs = three_players
      and r = "1 / 2" and j = 1 and js = "[2, 0]" and ys = three_players_reordered,
      unfolded len]
  from inst have t2: "is_draw (1 / 2) \<longrightarrow> random_index (1 / 2) 1 \<le> 1" by blast
  from inst have t4: "(1::nat) \<le> 1 \<and> (1::nat) < 4294967295 \<longrightarrow> (\<exists>r'. is_draw r' \<and> random_index r' 1 = 1)"
    by blast
  from inst have t5: "snd (shuffle_players half three_players) = 2" by blast
  from inst have t6: "fst (shuffle_players half three_players) = shuffle_with (choices half 0 2) 2 three_players"
    by blast
  from inst have t7: "random_ok half \<longrightarrow> valid_choices 2 (choices half 0 2)" by blast
  from inst have t8: "valid_choices 2 [2, 0] \<and> (3::nat) \<le> 4294967295 \<longrightarrow>
        (\<exists>random'. random_ok random' \<and> choices random' 0 2 = [2, 0])" by blast
  from inst have t9: "mset three_players_reordered = mset three_players \<and> (3::nat) \<le> 4294967295 \<longrightarrow>
        (\<exists>random'. random_ok random' \<and> fst (shuffle_players random' three_players) = three_players_reordered)"
    by blast
  from inst have t10: "distinct three_players \<and> three_players \<noteq> [] \<longrightarrow>
        bij_betw (\<lambda>js. shuffle_with js 2 three_players)
          {js. valid_choices 2 js} {ys. mset ys = mset three_players}
        \<and> card {js. valid_choices 2 js} = fact 3" by blast
  have b1: "random_index (1 / 2) 1 \<le> 1" using t2 is_draw_half by blast
  have b2: "\<exists>r'. is_draw r' \<and> random_index r' 1 = 1" using t4 by simp
  have b3: "valid_choices 2 (choices half 0 2)" using t7 random_ok_half by blast
  have b4: "fst (shuffle_players half three_players) =
       [three_players ! 0, three_players ! 2, three_players ! 1]"
    using t6 c s by simp
  have b5: "\<exists>random'. random_ok random' \<and> choices random' 0 2 = [2, 0]"
    using t8 h4 by simp
  have b6: "\<exists>random'. random_ok random' \<and> fst (shuffle_players random' three_players) = three_players_reordered"
    using t9 h2 by simp
  have b7: "bij_betw (\<lambda>js. shuffle_with js 2 three_players)
        {js. valid_choices 2 js} {ys. mset ys = mset three_players}"
    and b8: "card {js. valid_choices 2 js} = 6"
    using t10 h3 f by simp_all
  from random_ok_half is_draw_half b1 b2 t5 c b3 b4 b5 b6 b7 b8 show ?thesis
    by (intro conjI)
qed

text \<open>
  The position is not chosen uniformly in \<open>[0, i]\<close>. The draw written
  0.6666666666666666 lies below two thirds, yet at the step \<open>i = 2\<close> its product
  with 3 rounds to 2 and position 2 is chosen, not position 1; likewise a draw below five
  sixths chooses position 5 at the step \<open>i = 5\<close>. And with draws spread evenly over
  the doubles of 52 or of 53 bits, the three positions of the step \<open>i = 2\<close>, the
  first step of a shuffle of three players, are not chosen by equally many draws.
\<close>

theorem shuffle_positions_not_uniform:
  "is_draw below_two_thirds \<and> below_two_thirds < 2 / 3
   \<and> nat \<lfloor>below_two_thirds * (of_nat 2 + 1)\<rfloor> = 1
   \<and> random_index below_two_thirds 2 = 2
   \<and> is_draw below_five_sixths \<and> below_five_sixths < 5 / 6
   \<and> nat \<lfloor>below_five_sixths * (of_nat 5 + 1)\<rfloor> = 4
   \<and> random_index below_five_sixths 5 = 5
   \<and> \<not> (card (draws_choosing 52 2 0) = card (draws_choosing 52 2 1)
          \<and> card (draws_choosing 52 2 1) = card (draws_choosing 52 2 2))
   \<and> \<not> (card (draws_choosing 53 2 0) = card (draws_choosing 53 2 1)
          \<and> card (draws_choosing 53 2 1) = card (draws_choosing 53 2 2))"
proof -
  have a: "is_draw below_two_thirds \<and> below_two_thirds < 2 / 3
   \<and> nat \<lfloor>below_two_thirds * (of_nat 2 + 1)\<rfloor> = 1
   \<and> random_index below_two_thirds 2 = 2"
    by code_simp
  have b: "is_draw below_five_sixths \<and> below_five_sixths < 5 / 6
   \<and> nat \<lfloor>below_five_sixths * (of_nat 5 + 1)\<rfloor> = 4
   \<and> random_index below_five_sixths 5 = 5"
    by code_simp
  have c: "\<not> (card (draws_choosing 52 2 0) = card (draws_choosing 52 2 1)
          \<and> card (draws_choosing 52 2 1) = card (draws_choosing 52 2 2))"
    by (rule three_positions_unequal) simp
  have d: "\<not> (card (draws_choosing 53 2 0) = card (draws_choosing 53 2 1)
          \<and> card (draws_choosing 53 2 1) = card (draws_choosing 53 2 2))"
    by (rule three_positions_unequal) simp
  from a b c d show ?thesis by blast
qed

text \<open>
  Claim C8, amended. For every group count from 1 to 4294967295 and every non-empty sequence
  of players the answer holds exactly that many groups, named in generation order
  \<open>0, 1, ...\<close>; a group that received no player is still there. Every group's
  \<open>totalSkill\<close> is the sum of the skills of its members taken from left to right in
  double arithmetic, which is the exact sum when the skills are integers from 1 to 10.
\<close>

theorem groups_complete:
  assumes "1 \<le> number_of_groups outing" and "number_of_groups outing \<le> 4294967295"
    and "ps \<noteq> []" and "shuffle \<longrightarrow> random_ok random"
  shows "\<exists>gs. generate_groups lc random shuffle outing ps =
              Json_Groups (outing_name outing) (number_of_groups outing) gs
     \<and> length gs = nat (number_of_groups outing)
     \<and> map name gs = map group_name [0..<nat (number_of_groups outing)]
     \<and> (\<forall>g \<in> set gs. totalSkill g =
           foldl (\<lambda>sum p. double_add sum (player_skill p)) 0 (players g))
     \<and> ((\<forall>p \<in> set ps. integer_skill (player_skill p)) \<and> length ps \<le> 4294967295 \<longrightarrow>
           (\<forall>g \<in> set gs. totalSkill g = sum_list (map player_skill (players g))))"
proof -
  from generate_groups_result [OF assms, of lc]
  obtain gs where g: "generate_groups lc random shuffle outing ps =
              Json_Groups (outing_name outing) (number_of_groups outing) gs"
    and len: "length gs = nat (number_of_groups outing)"
    and nm: "map name gs = map group_name [0..<nat (number_of_groups outing)]"
    and ms: "mset (concat (map players gs)) = mset ps"
    and tot: "\<forall>g \<in> set gs. totalSkill g =
           foldl (\<lambda>sum p. double_add sum (player_skill p)) 0 (players g)"
    by blast
  have ex: "\<forall>g \<in> set gs. totalSkill g = sum_list (map player_skill (players g))"
    if "\<forall>p \<in> set ps. integer_skill (player_skill p)" "length ps \<le> 4294967295"
  proof
    fix g assume gin: "g \<in> set gs"
    from group_sum_exact [OF ms gin that] tot gin
    show "totalSkill g = sum_list (map player_skill (players g))" by simp
  qed
  from g len nm tot ex show ?thesis by blast
qed

theorem groups_complete_witness:
  "1 \<le> number_of_groups three_groups \<and> number_of_groups three_groups \<le> 4294967295
   \<and> one_player \<noteq> [] \<and> integer_skill (player_skill (one_player ! 0))
   \<and> (\<exists>gs. generate_groups code_unit_compare half False three_groups one_player =
              Json_Groups (outing_name three_groups) (number_of_groups three_groups) gs
        \<and> length gs = nat (number_of_groups three_groups)
        \<and> map name gs = map group_name [0..<nat (number_of_groups three_groups)]
        \<and> (\<forall>g \<in> set gs. totalSkill g = sum_list (map player_skill (players g))))
   \<and> generate_groups code_unit_compare half False three_groups one_player =
       Json_Groups ''Spring Open'' 3
         [\<lparr>name = ''The Fairway Fanatics'', players = one_player, totalSkill = 5\<rparr>,
          \<lparr>name = ''The Driving Divas/Dudes'', players = [], totalSkill = 0\<rparr>,
          \<lparr>name = ''The Bogey Brigade'', players = [], totalSkill = 0\<rparr>]"
proof -
  have h1: "1 \<le> number_of_groups three_groups" by (simp add: three_groups_def)
  have h2: "number_of_groups three_groups \<le> 4294967295" by (simp add: three_groups_def)
  have h3: "one_player \<noteq> []" by (simp add: one_player_def)
  have h4: "False \<longrightarrow> random_ok half" by simp
  have h5: "integer_skill (player_skill (one_player ! 0))"
    by (simp add: one_player_def integer_skill_def)
  have h6: "(\<forall>p \<in> set one_player. integer_skill (player_skill p)) \<and> length one_player \<le> 4294967295"
    by (simp add: one_player_def integer_skill_def)
  have ev: "generate_groups code_unit_compare half False three_groups one_player =
       Json_Groups ''Spring Open'' 3
         [\<lparr>name = ''The Fairway Fanatics'', players = one_player, totalSkill = 5\<rparr>,
          \<lparr>name = ''The Driving Divas/Dudes'', players = [], totalSkill = 0\<rparr>,
          \<lparr>name = ''The Bogey Brigade'', players = [], totalSkill = 0\<rparr>]"
    by code_simp
  from groups_complete [OF h1 h2 h3 h4, of code_unit_compare] h6
  have "\<exists>gs. generate_groups code_unit_compare half False three_groups one_player =
              Json_Groups (outing_name three_groups) (number_of_groups three_groups) gs
        \<and> length gs = nat (number_of_groups three_groups)
        \<and> map name gs = map group_name [0..<nat (number_of_groups three_groups)]
        \<and> (\<forall>g \<in> set gs. totalSkill g = sum_list (map player_skill (players g)))"
    by blast
  with h1 h2 h3 h5 ev show ?thesis by (intro conjI)
qed

text \<open>
  The bound on the count and the condition on the skills are needed. At the group count
  4294967296 there are no groups in the answer, which has status 500. And with the skills written 3.3, 2.2 and 1.1,
  which the table of players stores, the \<open>totalSkill\<close> of the one group is the double
  written 6.6, which is not the sum of the three skills.
\<close>

theorem groups_complete_fails:
  "1 \<le> number_of_groups big_outing \<and> one_player \<noteq> []
   \<and> generate_groups code_unit_compare half False big_outing one_player =
       Error 500 ''Failed to generate groups''
   \<and> 1 \<le> number_of_groups solo_outing \<and> fractional_players \<noteq> []
   \<and> generate_groups code_unit_compare half False solo_outing fractional_players =
       Json_Groups ''Solo'' 1
         [\<lparr>name = ''The Fairway Fanatics'', players = fractional_players,
           totalSkill = 3715469692580659 / 562949953421312\<rparr>]
   \<and> sum_list (map player_skill fractional_players) = 14861878770322637 / 2251799813685248
   \<and> sum_list (map player_skill fractional_players) \<noteq> 3715469692580659 / 562949953421312
   \<and> fst (post_player [] ''x'' (JString ''Xi'')
            (JNumber (Finite (3715469692580659 / 1125899906842624)))) = Json 201"
proof -
  have a: "1 \<le> number_of_groups big_outing" "one_player \<noteq> []"
    "1 \<le> number_of_groups solo_outing" "fractional_players \<noteq> []"
    by (simp_all add: big_outing_def one_player_def solo_outing_def fractional_players_def)
  have b: "generate_groups code_unit_compare half False big_outing one_player =
       Error 500 ''Failed to generate groups''"
    by code_simp
  have c: "generate_groups code_unit_compare half False solo_outing fractional_players =
       Json_Groups ''Solo'' 1
         [\<lparr>name = ''The Fairway Fanatics'', players = fractional_players,
           totalSkill = 3715469692580659 / 562949953421312\<rparr>]"
    by code_simp
  have d: "sum_list (map player_skill fractional_players) = 14861878770322637 / 2251799813685248"
    by code_simp
  have e: "sum_list (map player_skill fractional_players) \<noteq> 3715469692580659 / 562949953421312"
    by code_simp
  have f: "fst (post_player [] ''x'' (JString ''Xi'')
            (JNumber (Finite (3715469692580659 / 1125899906842624)))) = Json 201"
    by code_simp
  from a b c d e f show ?thesis by (intro conjI)
qed

text \<open>
  Claim C9. The ordering step leaves the caller's array untouched: it copies the array to a
  fresh address and shuffles or sorts the copy, which then holds the ordered players the
  distribution works on; every array other than the copy is as before.
\<close>

theorem ordering_keeps_input:
  assumes "store_ok h" and "arrays h a = Some ps"
  shows "\<exists>h' c. order_in_store lc random shuffle h a = (h', c)
     \<and> arrays h' a = Some ps
     \<and> c \<noteq> a
     \<and> arrays h' c = Some (order_players lc random shuffle ps)
     \<and> (\<forall>b. b \<noteq> c \<longrightarrow> arrays h' b = arrays h b)"
  using order_in_store_frame [OF assms, of lc random shuffle] by blast

theorem ordering_keeps_input_witness:
  "store_ok sample_store \<and> arrays sample_store 0 = Some three_players
   \<and> (\<exists>h' c. order_in_store code_unit_compare half True sample_store 0 = (h', c)
        \<and> arrays h' 0 = Some three_players \<and> c \<noteq> 0
        \<and> arrays h' c = Some (order_players code_unit_compare half True three_players))
   \<and> (\<exists>h' c. order_in_store code_unit_compare half False sample_store 0 = (h', c)
        \<and> arrays h' 0 = Some three_players \<and> c \<noteq> 0
        \<and> arrays h' c = Some (order_players code_unit_compare half False three_players))
   \<and> order_players code_unit_compare half False three_players \<noteq> three_players"
proof -
  have ne: "order_players code_unit_compare half False three_players \<noteq> three_players"
    by (simp add: order_players_def three_players_def array_sort_def compare_players_def)
  from ordering_keeps_input [OF sample_store_ok sample_store_at, of code_unit_compare half True]
    ordering_keeps_input [OF sample_store_ok sample_store_at, of code_unit_compare half False]
    sample_store_ok sample_store_at ne
  show ?thesis by blast
qed

section \<open>Results on the record stores\<close>

text \<open>
  Claim C10. Every row of every outing table the handlers can produce has a group count that
  is an integer of at least one, so that the generation handler reads a count of at least
  one from it; creation without a count stores 3; creation and update answer 400 and change
  nothing when the count provided is not a positive integer.
\<close>

theorem number_of_groups_positive:
  "(reachable db \<longrightarrow>
      (\<forall>r \<in> set db. positive_integer (o_number_of_groups r)
         \<and> (\<exists>out. read_outing r = Some out \<and> 1 \<le> number_of_groups out)))
   \<and> (truthy nm \<and> typeof nm = ''string'' \<and> length (trim (string_of nm)) \<noteq> 0
        \<and> \<not> (\<exists>r \<in> set db. o_id r = i) \<longrightarrow>
      post_outing db i nm JUndefined =
        (Json 201, db @ [\<lparr>o_id = i, o_name = string_of nm, o_number_of_groups = JNumber (Finite 3)\<rparr>]))
   \<and> (v \<noteq> JUndefined \<and> \<not> positive_integer v \<longrightarrow>
        (\<exists>msg. post_outing db i nm v = (Failure 400 msg, db))
      \<and> (\<exists>msg. put_outing db t nm v = (Failure 400 msg, db)))"
  using reachable_positive [of db] positive_integer_read post_outing_default [of nm db i]
    post_outing_rejects [of v db i nm] put_outing_rejects [of v db t nm]
  by blast

theorem number_of_groups_positive_witness:
  "reachable sample_outings
   \<and> sample_outings \<noteq> []
   \<and> positive_integer (o_number_of_groups (sample_outings ! 0))
   \<and> (\<exists>out. read_outing (sample_outings ! 0) = Some out \<and> 1 \<le> number_of_groups out)
   \<and> post_outing sample_outings ''o2'' (JString ''Cup'') JUndefined =
        (Json 201, sample_outings @
           [\<lparr>o_id = ''o2'', o_name = ''Cup'', o_number_of_groups = JNumber (Finite 3)\<rparr>])
   \<and> (\<exists>msg. post_outing sample_outings ''o2'' (JString ''Cup'') (JNumber (Finite (5 / 2))) =
          (Failure 400 msg, sample_outings))
   \<and> (\<exists>msg. put_outing sample_outings ''o1'' (JString ''Cup'') (JNumber (Finite (5 / 2))) =
          (Failure 400 msg, sample_outings))"
proof -
  have h1: "truthy (JString ''Cup'') \<and> typeof (JString ''Cup'') = ''string''
      \<and> length (trim (string_of (JString ''Cup''))) \<noteq> 0
      \<and> \<not> (\<exists>r \<in> set sample_outings. o_id r = ''o2'')"
    by (simp add: sample_outings_eq trim_def is_space_def)
  have h2: "JNumber (Finite (5 / 2)) \<noteq> JUndefined \<and> \<not> positive_integer (JNumber (Finite (5 / 2)))"
    by code_simp
  from number_of_groups_positive [of sample_outings "JString ''Cup''" "''o2''"
      "JNumber (Finite (5 / 2))" "''o1''"] sample_reach h1 h2
  show ?thesis by (simp add: sample_outings_eq)
qed

text \<open>
  Claim C4, at the skill 5.5. Adding a player with this skill and updating a player to it
  both succeed and store the value, although it is not an integer.
\<close>

theorem skill_fraction_accepted:
  "post_player [] ''p1'' (JString ''Ann'') (JNumber (Finite (11 / 2))) =
     (Json 201, [\<lparr>row_id = ''p1'', row_name = ''Ann'', row_name_lower = ''ann'',
                  row_skill = JNumber (Finite (11 / 2))\<rparr>])
   \<and> put_player [\<lparr>row_id = ''p1'', row_name = ''Ann'', row_name_lower = ''ann'',
                   row_skill = JNumber (Finite 3)\<rparr>] ''p1'' JUndefined (JNumber (Finite (11 / 2))) =
     (Json 200, [\<lparr>row_id = ''p1'', row_name = ''Ann'', row_name_lower = ''ann'',
                  row_skill = JNumber (Finite (11 / 2))\<rparr>])
   \<and> \<not> isInteger (JNumber (Finite (11 / 2)))"
  by code_simp

theorem skill_fraction_accepted_witness:
  "fst (post_player [] ''p1'' (JString ''Ann'') (JNumber (Finite (11 / 2)))) = Json 201
   \<and> fst (put_player [\<lparr>row_id = ''p1'', row_name = ''Ann'', row_name_lower = ''ann'',
                        row_skill = JNumber (Finite 3)\<rparr>] ''p1'' JUndefined
             (JNumber (Finite (11 / 2)))) = Json 200"
  using skill_fraction_accepted by simp

end
